theory Spec2Isabelle
  imports Complex_Main
begin

section \<open>Data model (types.ts, constants)\<close>

datatype BabyState = SLEEPING | CRYING | LISTENING | HAPPY | PAUSED

datatype AppMode = SETUP | ACTIVE | ERROR

definition SPEECH_THRESHOLD :: real where
  "SPEECH_THRESHOLD = 5 / 100"

definition SILENCE_TOLERANCE_MS :: int where
  "SILENCE_TOLERANCE_MS = 2000"

section \<open>Double arithmetic\<close>

text \<open>
  JavaScript numbers are IEEE 754 binary64 values. The audio clock
  (\<open>outputContext.currentTime\<close>), the durations and the playback cursor are kept
  as the reals they denote, and the one arithmetic operation the scheduler performs on
  them, the addition \<open>nextStartTimeRef.current += audioBuffer.duration\<close>, is
  rounded to the nearest double, ties to even. Comparison and assignment are exact.
  \<open>Date.now()\<close> is an integer number of milliseconds.
\<close>

text \<open>Rounding to the nearest integer, ties to the even one.\<close>

definition rne :: "real \<Rightarrow> int" where
  "rne y =
     (let f = \<lfloor>y\<rfloor>; r = y - real_of_int f
      in if r < 1 / 2 then f
         else if 1 / 2 < r then f + 1
         else if even f then f else f + 1)"

text \<open>A magnitude below \<open>2 ^ 53\<close>: doubled until it has 53 significant bits, at
  most \<open>n\<close> times (1074 times reaches the spacing of the subnormal numbers), then
  rounded to an integer and scaled back.\<close>

fun round_up :: "nat \<Rightarrow> real \<Rightarrow> real" where
  "round_up 0 x = real_of_int (rne x)"
| "round_up (Suc n) x =
     (if x < 2 ^ 52 then round_up n (2 * x) / 2 else real_of_int (rne x))"

text \<open>A magnitude of \<open>2 ^ 53\<close> or more: halved until it is below \<open>2 ^ 53\<close>,
  rounded there and scaled back. A magnitude that reaches \<open>2 ^ 1024\<close>, for
  which JavaScript gives Infinity, is beyond the model: from \<open>2 ^ 1024\<close> on it
  is left as it is.\<close>

fun round_down :: "nat \<Rightarrow> real \<Rightarrow> real" where
  "round_down 0 x = x"
| "round_down (Suc n) x =
     (if 2 ^ 53 \<le> x then 2 * round_down n (x / 2) else real_of_int (rne x))"

definition round_double :: "real \<Rightarrow> real" where
  "round_double x =
     (let a = \<bar>x\<bar>;
          r = (if a < 2 ^ 53 then round_up 1074 a else round_down 972 a)
      in if x < 0 then - r else r)"

text \<open>A decoded response buffer; the scheduler only reads its duration (seconds).\<close>

record audio_buffer =
  duration :: real

text \<open>An \<open>AudioBufferSourceNode\<close>: its identity, its buffer and the time it was started at.\<close>

record source_node =
  source_id :: nat
  buffer :: audio_buffer
  start_at :: real

text \<open>
  The inbound \<open>LiveServerMessage\<close>, as far as \<open>onmessage\<close> reads it:
  \<open>serverContent?.modelTurn?.parts\<close> (absent, or a list of parts), each part
  with its optional \<open>inlineData?.data\<close>.
\<close>

record server_message =
  parts :: "string option list option"

section \<open>The component state of App.tsx\<close>

text \<open>
  The React state (\<open>mode\<close>, \<open>babyState\<close>, \<open>volume\<close>, \<open>isConnected\<close>,
  \<open>isPaused\<close>) and the refs of the component, followed by the part of the
  runtime the handlers act on: the pending timers of the event loop (identifier
  and deadline; every timer the component creates has the same callback,
  \<open>setBabyState(CRYING)\<close>), the sources started on the output context and not
  yet stopped or ended, the payloads of the inbound messages whose handler is
  suspended at \<open>await decodeAudioData\<close>, the frames handed to
  \<open>sendRealtimeInput\<close>, and the console.
\<close>

record app =
  mode :: AppMode
  babyState :: BabyState
  volume :: real
  isConnected :: bool
  isPaused :: bool
  lastSpeechTimeRef :: int
  silenceTimerRef :: "nat option"
  nextStartTimeRef :: real
  audioSourcesRef :: "source_node list"
  isPausedRef :: bool
  timers :: "(nat \<times> int) list"
  nextTimerId :: nat
  playing :: "source_node list"
  nextSourceId :: nat
  decoding :: "string list"
  outbound :: "real list list"
  console :: "string list"

text \<open>The state at mount; \<open>now\<close> is \<open>Date.now()\<close> at that moment. Timer
  identifiers handed out by the browser are positive.\<close>

definition initApp :: "int \<Rightarrow> app" where
  "initApp now =
     \<lparr> mode = SETUP, babyState = SLEEPING, volume = 0, isConnected = False,
       isPaused = False, lastSpeechTimeRef = now, silenceTimerRef = None,
       nextStartTimeRef = 0, audioSourcesRef = [], isPausedRef = False,
       timers = [], nextTimerId = 1, playing = [], nextSourceId = 0,
       decoding = [], outbound = [], console = [] \<rparr>"

section \<open>Timers of the event loop\<close>

text \<open>\<open>setTimeout(cb, delay)\<close> called at time \<open>now\<close>: the new timer gets the
  next identifier (which the caller reads as \<open>nextTimerId\<close> of the state
  before the call).\<close>

definition setTimeout :: "int \<Rightarrow> int \<Rightarrow> app \<Rightarrow> app" where
  "setTimeout now delay s =
     s\<lparr> timers := timers s @ [(nextTimerId s, now + delay)],
        nextTimerId := Suc (nextTimerId s) \<rparr>"

definition clearTimeout :: "nat \<Rightarrow> app \<Rightarrow> app" where
  "clearTimeout i s = s\<lparr> timers := filter (\<lambda>(j, d). j \<noteq> i) (timers s) \<rparr>"

text \<open>\<open>if (silenceTimerRef.current) clearTimeout(silenceTimerRef.current)\<close>\<close>

definition clearSilenceTimer :: "app \<Rightarrow> app" where
  "clearSilenceTimer s =
     (case silenceTimerRef s of None \<Rightarrow> s | Some i \<Rightarrow> clearTimeout i s)"

text \<open>\<open>silenceTimerRef.current = setTimeout(() => setBabyState(CRYING), SILENCE_TOLERANCE_MS)\<close>\<close>

definition startSilenceTimer :: "int \<Rightarrow> app \<Rightarrow> app" where
  "startSilenceTimer now s =
     (setTimeout now SILENCE_TOLERANCE_MS s)\<lparr> silenceTimerRef := Some (nextTimerId s) \<rparr>"

text \<open>The event loop runs the callback of timer \<open>i\<close>, if that timer is still
  pending: the timer is consumed and the callback sets the mood to CRYING. A
  timer that was cleared is not pending and its callback never runs.\<close>

definition fireTimer :: "nat \<Rightarrow> app \<Rightarrow> app" where
  "fireTimer i s =
     (if i \<in> set (map fst (timers s))
      then s\<lparr> timers := filter (\<lambda>(j, d). j \<noteq> i) (timers s), babyState := CRYING \<rparr>
      else s)"

text \<open>Time reaches \<open>t\<close>: every pending timer whose deadline has been reached
  runs, in creation order.\<close>

definition advance :: "int \<Rightarrow> app \<Rightarrow> app" where
  "advance t s = fold fireTimer (map fst (filter (\<lambda>(i, d). d \<le> t) (timers s))) s"

section \<open>Handlers of App.tsx\<close>

definition onopen :: "int \<Rightarrow> app \<Rightarrow> app" where
  "onopen now s =
     (let s1 = s\<lparr> console := console s @ [''Gemini Live Connected''],
                  isConnected := True, mode := ACTIVE, babyState := LISTENING,
                  lastSpeechTimeRef := now \<rparr>
      in startSilenceTimer now (clearSilenceTimer s1))"

definition onclose :: "app \<Rightarrow> app" where
  "onclose s = s\<lparr> console := console s @ [''Gemini Live Disconnected''],
                  isConnected := False \<rparr>"

definition onerror :: "app \<Rightarrow> app" where
  "onerror s = s\<lparr> console := console s @ [''Gemini Live Error''] \<rparr>"

text \<open>The \<open>catch\<close> branch of \<open>startSession\<close>.\<close>

definition startSessionFailed :: "app \<Rightarrow> app" where
  "startSessionFailed s =
     s\<lparr> console := console s @ [''Failed to initialize:''], mode := ERROR \<rparr>"

definition handleSpeechDetected :: "int \<Rightarrow> app \<Rightarrow> app" where
  "handleSpeechDetected now s =
     (if isPausedRef s then s
      else
        let s1 = s\<lparr> lastSpeechTimeRef := now \<rparr>;
            s2 = s1\<lparr> babyState :=
                     (if babyState s1 = CRYING \<or> babyState s1 = SLEEPING
                      then LISTENING else babyState s1) \<rparr>
        in startSilenceTimer now (clearSilenceTimer s2))"

text \<open>The loudness of one frame: the loop summing the squares, then the root
  of the mean. Samples are modelled as reals. A frame of the script processor has
  4096 samples; on the empty list the quotient is 0 here and NaN in JavaScript, and
  neither is above the threshold.\<close>

definition rms :: "real list \<Rightarrow> real" where
  "rms inputData =
     sqrt (foldl (\<lambda>sum x. sum + x * x) 0 inputData / real (length inputData))"

definition onaudioprocess :: "int \<Rightarrow> real list \<Rightarrow> app \<Rightarrow> app" where
  "onaudioprocess now inputData s =
     (if isPausedRef s then s
      else
        let s1 = s\<lparr> outbound := outbound s @ [inputData] \<rparr>;
            s2 = s1\<lparr> volume := rms inputData \<rparr>
        in if rms inputData > SPEECH_THRESHOLD then handleSpeechDetected now s2 else s2)"

text \<open>\<open>message.serverContent?.modelTurn?.parts?.[0]?.inlineData?.data\<close>\<close>

definition base64Audio :: "server_message \<Rightarrow> string option" where
  "base64Audio message =
     (case parts message of
        None \<Rightarrow> None
      | Some [] \<Rightarrow> None
      | Some (p # _) \<Rightarrow> p)"

text \<open>
  \<open>onmessage\<close> is an async function: it runs to \<open>await decodeAudioData\<close>,
  is suspended there, and is resumed when the decode settles. The helpers
  \<open>base64ToUint8Array\<close> and \<open>decodeAudioData\<close> (services/audioUtils) are
  taken as the parameter \<open>decodeAudio\<close>: the buffer decoded from the payload, or
  \<open>None\<close> when either helper throws (the failure of either is logged by the same
  \<open>catch\<close>; in the runs that separate the two halves of the handler it is logged
  when the decode settles, and the state reached is the same).
\<close>

text \<open>Up to the await: the pause guard, then the payload
  \<open>message.serverContent?.modelTurn?.parts?.[0]?.inlineData?.data\<close>; an absent
  or empty payload (falsy) skips the block. The result is the payload the handler
  goes on to decode, if any.\<close>

definition awaited :: "server_message \<Rightarrow> app \<Rightarrow> string option" where
  "awaited message s =
     (if isPausedRef s then None
      else
        case base64Audio message of
          None \<Rightarrow> None
        | Some b \<Rightarrow> if b = [] then None else Some b)"

text \<open>From the await on, with the payload \<open>b\<close> the handler was suspended on:
  the \<open>catch\<close> branch when the decode failed, otherwise the source is created,
  started at the cursor (moved up to \<open>outputContext.currentTime\<close>, read at this
  moment, when it is behind) and tracked, and the cursor is advanced by the duration.
  The pause flag is not read again.\<close>

definition onmessage_resume :: "(string \<Rightarrow> audio_buffer option) \<Rightarrow> real \<Rightarrow> string \<Rightarrow> app \<Rightarrow> app" where
  "onmessage_resume decodeAudio currentTime b s =
     (case decodeAudio b of
        None \<Rightarrow> s\<lparr> console := console s @ [''Audio decode error''] \<rparr>
      | Some audioBuffer \<Rightarrow>
          let start = (if nextStartTimeRef s < currentTime then currentTime
                       else nextStartTimeRef s);
              src = \<lparr> source_id = nextSourceId s, buffer = audioBuffer,
                      start_at = start \<rparr>
          in s\<lparr> nextStartTimeRef := round_double (start + duration audioBuffer),
                audioSourcesRef := audioSourcesRef s @ [src],
                playing := playing s @ [src],
                nextSourceId := Suc (nextSourceId s) \<rparr>)"

text \<open>The handler when its decode settles before any other callback runs.\<close>

definition onmessage :: "(string \<Rightarrow> audio_buffer option) \<Rightarrow> real \<Rightarrow> server_message \<Rightarrow> app \<Rightarrow> app" where
  "onmessage decodeAudio currentTime message s =
     (case awaited message s of
        None \<Rightarrow> s
      | Some b \<Rightarrow> onmessage_resume decodeAudio currentTime b s)"

text \<open>The two halves as separate callbacks, for the runs in which other callbacks
  come between them: the arrival of a message, which leaves the handler suspended on
  its payload, and the settling of the \<open>i\<close>-th pending decode, which resumes
  it.\<close>

definition onmessage_suspend :: "server_message \<Rightarrow> app \<Rightarrow> app" where
  "onmessage_suspend message s =
     (case awaited message s of
        None \<Rightarrow> s
      | Some b \<Rightarrow> s\<lparr> decoding := decoding s @ [b] \<rparr>)"

definition onmessage_settle :: "(string \<Rightarrow> audio_buffer option) \<Rightarrow> real \<Rightarrow> nat \<Rightarrow> app \<Rightarrow> app" where
  "onmessage_settle decodeAudio currentTime i s =
     (if i < length (decoding s)
      then onmessage_resume decodeAudio currentTime (decoding s ! i)
             (s\<lparr> decoding := take i (decoding s) @ drop (Suc i) (decoding s) \<rparr>)
      else s)"

text \<open>\<open>source.onended\<close>: the source with identifier \<open>i\<close> has finished; it
  leaves the output context and the handler deletes it from the tracked set.\<close>

definition onended :: "nat \<Rightarrow> app \<Rightarrow> app" where
  "onended i s =
     s\<lparr> playing := filter (\<lambda>x. source_id x \<noteq> i) (playing s),
        audioSourcesRef := filter (\<lambda>x. source_id x \<noteq> i) (audioSourcesRef s) \<rparr>"

text \<open>\<open>source.stop()\<close>: the source is silenced at once.\<close>

definition stopSource :: "source_node \<Rightarrow> app \<Rightarrow> app" where
  "stopSource src s =
     s\<lparr> playing := filter (\<lambda>x. source_id x \<noteq> source_id src) (playing s) \<rparr>"

definition togglePause :: "int \<Rightarrow> app \<Rightarrow> app" where
  "togglePause now s =
     (let newState = \<not> isPaused s;
          s1 = s\<lparr> isPaused := newState, isPausedRef := newState \<rparr>
      in if newState then
           let s2 = clearSilenceTimer s1;
               s3 = s2\<lparr> babyState := PAUSED, volume := 0 \<rparr>;
               s4 = fold stopSource (audioSourcesRef s3) s3
           in s4\<lparr> audioSourcesRef := [], nextStartTimeRef := 0 \<rparr>
         else
           let s2 = s1\<lparr> babyState := LISTENING, lastSpeechTimeRef := now \<rparr>
           in startSilenceTimer now (clearSilenceTimer s2))"

section \<open>Events and runs\<close>

text \<open>The callbacks the environment can deliver. \<open>Decoded\<close> is the settling of
  a pending decode; it carries the audio clock at that moment and the position of the
  decode among the pending ones.\<close>

datatype event =
    Open
  | Message server_message
  | Decoded real nat
  | Close
  | Error
  | AudioProcess "real list"
  | TogglePause
  | Ended nat
  | StartFailed

fun dispatch :: "(string \<Rightarrow> audio_buffer option) \<Rightarrow> int \<Rightarrow> event \<Rightarrow> app \<Rightarrow> app" where
  "dispatch dec now Open s = onopen now s"
| "dispatch dec now (Message m) s = onmessage_suspend m s"
| "dispatch dec now (Decoded currentTime i) s = onmessage_settle dec currentTime i s"
| "dispatch dec now Close s = onclose s"
| "dispatch dec now Error s = onerror s"
| "dispatch dec now (AudioProcess inputData) s = onaudioprocess now inputData s"
| "dispatch dec now TogglePause s = togglePause now s"
| "dispatch dec now (Ended i) s = onended i s"
| "dispatch dec now StartFailed s = startSessionFailed s"

text \<open>A timed run: a pending timer fires as soon as its deadline is reached, so
  before the callback stamped \<open>t\<close> is dispatched, the timers due at \<open>t\<close>
  have run.\<close>

fun run :: "(string \<Rightarrow> audio_buffer option) \<Rightarrow> (int \<times> event) list \<Rightarrow> app \<Rightarrow> app" where
  "run dec [] s = s"
| "run dec ((t, e) # es) s = run dec es (dispatch dec t e (advance t s))"

section \<open>Invariants\<close>

text \<open>At most one timer is pending, and it is the one \<open>silenceTimerRef\<close> holds.\<close>

definition timer_inv :: "app \<Rightarrow> bool" where
  "timer_inv s =
     (length (timers s) \<le> 1 \<and> (\<forall>x \<in> set (timers s). silenceTimerRef s = Some (fst x)))"

text \<open>Every source still on the output context is in the tracked set.\<close>

definition playback_inv :: "app \<Rightarrow> bool" where
  "playback_inv s = (set (playing s) \<subseteq> set (audioSourcesRef s))"

section \<open>The pause button\<close>

text \<open>
  The monitor component renders one button. It reads "Resume Reading" when
  \<open>isPaused\<close> holds and "Pause Reading" otherwise, and its click handler is
  \<open>togglePause\<close> in both cases. The request the button offers:
\<close>

datatype user_request = PauseRequested | ResumeRequested

definition offered :: "app \<Rightarrow> user_request" where
  "offered s = (if isPaused s then ResumeRequested else PauseRequested)"

text \<open>A request reaches the component as a click on the button that offers it. A
  request the button does not offer has no control to be issued with: no handler
  runs.\<close>

definition deliver :: "user_request \<Rightarrow> int \<Rightarrow> app \<Rightarrow> app" where
  "deliver r now s = (if offered s = r then togglePause now s else s)"

section \<open>Reachable states\<close>

text \<open>
  The states of the component: the state at mount, closed under every callback and
  under the firing of a pending timer, in any order, at any time and with any
  decoder.
\<close>

inductive reachable :: "app \<Rightarrow> bool" where
  mount: "reachable (initApp now)"
| callback: "reachable s \<Longrightarrow> reachable (dispatch dec now e s)"
| timer: "reachable s \<Longrightarrow> reachable (fireTimer i s)"

text \<open>What holds in every reachable state: the timer and playback invariants, and
  the agreement of the pause flag with its ref.\<close>

definition code_inv :: "app \<Rightarrow> bool" where
  "code_inv s = (timer_inv s \<and> playback_inv s \<and> isPausedRef s = isPaused s)"

text \<open>The pause override: the mood is PAUSED exactly when the session is paused, and
  no timer is pending while it is.\<close>

definition session_inv :: "app \<Rightarrow> bool" where
  "session_inv s =
     (code_inv s
      \<and> (babyState s = PAUSED) = isPaused s
      \<and> (isPaused s \<longrightarrow> timers s = []))"

section \<open>Properties of timed events\<close>

text \<open>A frame the detector classifies as speech.\<close>

fun is_speech :: "event \<Rightarrow> bool" where
  "is_speech (AudioProcess inputData) = (rms inputData > SPEECH_THRESHOLD)"
| "is_speech _ = False"

text \<open>An event that is neither speech nor a pause or resume request nor an open:
  a frame at or below the threshold, the arrival of a message, the settling of a
  decode, a close, an error, the end of a source, a failed start.\<close>

fun quiet :: "event \<Rightarrow> bool" where
  "quiet (AudioProcess inputData) = (\<not> rms inputData > SPEECH_THRESHOLD)"
| "quiet Open = False"
| "quiet TogglePause = False"
| "quiet _ = True"

text \<open>Events in time for the deadline \<open>d\<close>: each comes before the deadline in
  force, a speech frame moves the deadline to \<open>SILENCE_TOLERANCE_MS\<close> after itself,
  and every other event is quiet. So each speech frame comes less than
  \<open>SILENCE_TOLERANCE_MS\<close> after the one before, with any quiet events between
  them.\<close>

fun spaced :: "int \<Rightarrow> (int \<times> event) list \<Rightarrow> bool" where
  "spaced d [] = True"
| "spaced d ((t, e) # es) =
     (t < d \<and> (if is_speech e then spaced (t + SILENCE_TOLERANCE_MS) es
                else quiet e \<and> spaced d es))"

text \<open>The deadline in force after such events: that of the last speech frame.\<close>

fun deadline_after :: "int \<Rightarrow> (int \<times> event) list \<Rightarrow> int" where
  "deadline_after d [] = d"
| "deadline_after d ((t, e) # es) =
     deadline_after (if is_speech e then t + SILENCE_TOLERANCE_MS else d) es"

text \<open>Once the tracked timer is armed for \<open>d\<close>, quiet events leave it pending until
  it fires, and after it has fired the mood stays CRYING.\<close>

definition armed_or_fired :: "int \<Rightarrow> app \<Rightarrow> bool" where
  "armed_or_fired d s =
     ((\<exists>i. timers s = [(i, d)]) \<or> (timers s = [] \<and> babyState s = CRYING))"

text \<open>Speech in time: the tracked timer is armed, the session is not paused and the
  mood is not CRYING.\<close>

definition listening_until :: "int \<Rightarrow> app \<Rightarrow> bool" where
  "listening_until d s =
     ((\<exists>i. timers s = [(i, d)] \<and> silenceTimerRef s = Some i)
      \<and> \<not> isPausedRef s \<and> babyState s \<noteq> CRYING)"

section \<open>Events between two chunks\<close>

text \<open>An event that schedules no chunk: anything but the settling of a decode that
  succeeds.\<close>

fun no_chunk :: "(string \<Rightarrow> audio_buffer option) \<Rightarrow> event \<Rightarrow> app \<Rightarrow> bool" where
  "no_chunk dec (Decoded currentTime i) s =
     (\<not> i < length (decoding s) \<or> dec (decoding s ! i) = None)"
| "no_chunk dec e s = True"

text \<open>A run in which no chunk is scheduled.\<close>

fun between :: "(string \<Rightarrow> audio_buffer option) \<Rightarrow> (int \<times> event) list \<Rightarrow> app \<Rightarrow> bool" where
  "between dec [] s = True"
| "between dec ((t, e) # es) s =
     (no_chunk dec e (advance t s) \<and> between dec es (dispatch dec t e (advance t s)))"

text \<open>Whether a pause request (the toggle in a session that is not paused) occurs in a
  run.\<close>

fun pause_in :: "(string \<Rightarrow> audio_buffer option) \<Rightarrow> (int \<times> event) list \<Rightarrow> app \<Rightarrow> bool" where
  "pause_in dec [] s = False"
| "pause_in dec ((t, e) # es) s =
     ((e = TogglePause \<and> \<not> isPaused (advance t s))
      \<or> pause_in dec es (dispatch dec t e (advance t s)))"

section \<open>PCM framer\<close>

text \<open>Modelled from the spec: the error of the PCM framer (services/audioUtils, whose source
  is missing): decoding a byte sequence whose length is not a multiple of the sample width
  fails with MalformedFrame.\<close>

datatype framer_error = MalformedFrame

text \<open>Modelled from the spec: an AudioFrame, a sequence of normalized sample amplitudes plus a
  sample rate tag, as the framer of services/audioUtils (source missing) takes it.
  Amplitudes are modelled as reals.\<close>

record audio_frame =
  samples :: "real list"
  sampleRate :: nat

text \<open>Modelled from the spec: the signed integers of a fixed width of \<open>width\<close>
  bytes range over \<open>- full_scale width\<close> to \<open>full_scale width -
  1\<close>; the width itself is left open by the specification and is a parameter here.
  One quantization step is \<open>1 / full_scale width\<close>.\<close>

definition full_scale :: "nat \<Rightarrow> int" where
  "full_scale width = 2 ^ (8 * width - 1)"

text \<open>Modelled from the spec: a normalized sample becomes a signed linear integer of the fixed
  width, clamped to the representable range. The specification does not name the rounding;
  it is the parameter \<open>rnd\<close>.\<close>

definition quantize :: "(real \<Rightarrow> int) \<Rightarrow> nat \<Rightarrow> real \<Rightarrow> int" where
  "quantize rnd width x =
     max (- full_scale width)
         (min (full_scale width - 1) (rnd (x * real_of_int (full_scale width))))"

text \<open>Modelled from the spec: the \<open>k\<close> bytes of an integer in two's complement,
  least significant byte first.\<close>

fun int_to_bytes :: "nat \<Rightarrow> int \<Rightarrow> nat list" where
  "int_to_bytes 0 n = []"
| "int_to_bytes (Suc k) n = nat (n mod 256) # int_to_bytes k (n div 256)"

text \<open>Modelled from the spec: the unsigned value of bytes, least significant byte first.\<close>

fun bytes_to_int :: "nat list \<Rightarrow> int" where
  "bytes_to_int [] = 0"
| "bytes_to_int (b # bs) = int b + 256 * bytes_to_int bs"

text \<open>Modelled from the spec: one sample in the fixed byte order; the specification leaves the
  order open, so both are modelled.\<close>

definition sample_to_bytes :: "bool \<Rightarrow> nat \<Rightarrow> int \<Rightarrow> nat list" where
  "sample_to_bytes big_endian width n =
     (if big_endian then rev (int_to_bytes width n) else int_to_bytes width n)"

text \<open>Modelled from the spec: the signed integer read back from the bytes of one sample.\<close>

definition sample_of_bytes :: "bool \<Rightarrow> nat \<Rightarrow> nat list \<Rightarrow> int" where
  "sample_of_bytes big_endian width bs =
     (let u = bytes_to_int (if big_endian then rev bs else bs)
      in if full_scale width \<le> u then u - 2 * full_scale width else u)"

text \<open>Modelled from the spec: \<open>encode(frame) -> bytes\<close> converts each sample to
  its fixed-width signed integer and writes the integers out in sequence.\<close>

definition encode :: "(real \<Rightarrow> int) \<Rightarrow> bool \<Rightarrow> nat \<Rightarrow> audio_frame \<Rightarrow> nat list" where
  "encode rnd big_endian width frame =
     concat (map (\<lambda>x. sample_to_bytes big_endian width (quantize rnd width x)) (samples frame))"

text \<open>Modelled from the spec: \<open>decode(bytes, sampleRate) -> AudioFrame\<close>, the
  inverse of \<open>encode\<close> on well-formed input; a length that is not a multiple
  of the sample width is a MalformedFrame.\<close>

definition decode :: "bool \<Rightarrow> nat \<Rightarrow> nat list \<Rightarrow> nat \<Rightarrow> framer_error + audio_frame" where
  "decode big_endian width bytes rate =
     (if width = 0 \<or> length bytes mod width \<noteq> 0 then Inl MalformedFrame
      else Inr \<lparr> samples =
                   map (\<lambda>i. real_of_int (sample_of_bytes big_endian width
                                            (take width (drop (i * width) bytes)))
                             / real_of_int (full_scale width))
                       [0 ..< length bytes div width],
                 sampleRate = rate \<rparr>)"


section \<open>Facts about the rounding\<close>

lemma rne_error: "\<bar>real_of_int (rne y) - y\<bar> \<le> 1 / 2"
  unfolding rne_def Let_def by (auto simp: abs_le_iff)

lemma round_up_error:
  "0 \<le> x \<Longrightarrow> \<bar>round_up n x - x\<bar> \<le> x / 2 ^ 53 + 1 / 2 ^ Suc n"
proof (induction n arbitrary: x)
  case 0
  have "\<bar>real_of_int (rne x) - x\<bar> \<le> 1 / 2" by (rule rne_error)
  then show ?case using 0 by simp
next
  case (Suc n)
  show ?case
  proof (cases "x < 2 ^ 52")
    case True
    have "\<bar>round_up n (2 * x) - 2 * x\<bar> \<le> 2 * x / 2 ^ 53 + 1 / 2 ^ Suc n"
      using Suc.prems by (intro Suc.IH) simp
    then have "\<bar>round_up n (2 * x) / 2 - x\<bar> \<le> x / 2 ^ 53 + 1 / 2 ^ Suc (Suc n)"
      by (simp add: abs_le_iff field_simps)
    then show ?thesis
      using True by simp
  next
    case False
    have "\<bar>real_of_int (rne x) - x\<bar> \<le> 1 / 2" by (rule rne_error)
    moreover have "1 / 2 \<le> x / 2 ^ 53"
      using False by simp
    moreover have "0 \<le> 1 / (2 :: real) ^ Suc (Suc n)" by simp
    ultimately have "\<bar>real_of_int (rne x) - x\<bar> \<le> x / 2 ^ 53 + 1 / 2 ^ Suc (Suc n)"
      by linarith
    then show ?thesis
      using False by simp
  qed
qed

lemma round_down_error:
  "2 ^ 52 \<le> x \<Longrightarrow> \<bar>round_down n x - x\<bar> \<le> x / 2 ^ 53"
proof (induction n arbitrary: x)
  case 0
  then show ?case by simp
next
  case (Suc n)
  show ?case
  proof (cases "2 ^ 53 \<le> x")
    case True
    have "\<bar>round_down n (x / 2) - x / 2\<bar> \<le> x / 2 / 2 ^ 53"
      using True by (intro Suc.IH) simp
    then have "\<bar>2 * round_down n (x / 2) - x\<bar> \<le> x / 2 ^ 53"
      by (simp add: abs_le_iff field_simps)
    then show ?thesis
      using True by simp
  next
    case False
    have "\<bar>real_of_int (rne x) - x\<bar> \<le> 1 / 2" by (rule rne_error)
    moreover have "1 / 2 \<le> x / 2 ^ 53"
      using Suc.prems by simp
    ultimately show ?thesis
      using False by simp
  qed
qed

lemma signed_error:
  fixes r x b :: real
  assumes "\<bar>r - \<bar>x\<bar>\<bar> \<le> b"
  shows "\<bar>(if x < 0 then - r else r) - x\<bar> \<le> b"
  using assms by (auto simp: abs_le_iff)

text \<open>The rounded sum is within half a unit in the last place of the exact one.\<close>

lemma round_double_error:
  "\<bar>round_double x - x\<bar> \<le> \<bar>x\<bar> / 2 ^ 53 + 1 / 2 ^ 1075"
proof -
  let ?a = "\<bar>x\<bar>"
  let ?r = "if ?a < 2 ^ 53 then round_up 1074 ?a else round_down 972 ?a"
  have "\<bar>?r - ?a\<bar> \<le> ?a / 2 ^ 53 + 1 / 2 ^ 1075"
  proof (cases "?a < 2 ^ 53")
    case True
    have "\<bar>round_up 1074 ?a - ?a\<bar> \<le> ?a / 2 ^ 53 + 1 / 2 ^ Suc 1074"
      by (rule round_up_error) (rule abs_ge_zero)
    moreover have "Suc 1074 = 1075"
      by simp
    ultimately have "\<bar>round_up 1074 ?a - ?a\<bar> \<le> ?a / 2 ^ 53 + 1 / 2 ^ 1075"
      by (simp only:)
    then show ?thesis
      using True by (simp only: if_True)
  next
    case False
    have "(2 :: real) ^ 52 \<le> 2 ^ 53"
      by (rule power_increasing) simp_all
    then have "2 ^ 52 \<le> ?a"
      using False by linarith
    then have "\<bar>round_down 972 ?a - ?a\<bar> \<le> ?a / 2 ^ 53"
      by (rule round_down_error)
    moreover have "0 \<le> 1 / (2 :: real) ^ 1075"
      by (rule divide_nonneg_nonneg) (rule zero_le_one, rule zero_le_power, rule zero_le_numeral)
    ultimately have "\<bar>round_down 972 ?a - ?a\<bar> \<le> ?a / 2 ^ 53 + 1 / 2 ^ 1075"
      by linarith
    then show ?thesis
      using False by (simp only: if_False)
  qed
  then have "\<bar>(if x < 0 then - ?r else ?r) - x\<bar> \<le> ?a / 2 ^ 53 + 1 / 2 ^ 1075"
    by (rule signed_error)
  then show ?thesis
    by (simp only: round_double_def Let_def)
qed

text \<open>Evaluation: a magnitude that \<open>k\<close> doublings bring to 53 significant bits is
  rounded to an integer there.\<close>

lemma round_up_scaled:
  assumes "k \<le> n" and "2 ^ 52 \<le> x * 2 ^ k" and "x * 2 ^ k < 2 ^ 53"
  shows "round_up n x = real_of_int (rne (x * 2 ^ k)) / 2 ^ k"
  using assms
proof (induction k arbitrary: n x)
  case 0
  then show ?case by (cases n) simp_all
next
  case (Suc k)
  obtain n' where n: "n = Suc n'"
    using Suc.prems(1) by (cases n) simp_all
  have small: "x < 2 ^ 52"
  proof (rule ccontr)
    assume "\<not> x < 2 ^ 52"
    then have "2 ^ 52 * 2 ^ Suc k \<le> x * 2 ^ Suc k"
      by simp
    moreover have "(2 :: real) ^ 53 \<le> 2 ^ 52 * 2 ^ Suc k"
      by simp
    ultimately show False
      using Suc.prems(3) by linarith
  qed
  have "round_up n' (2 * x) = real_of_int (rne (2 * x * 2 ^ k)) / 2 ^ k"
    using Suc.prems n by (intro Suc.IH) (simp_all add: mult.assoc mult.commute mult.left_commute)
  then show ?case
    using small by (simp add: n mult.assoc mult.commute mult.left_commute)
qed

lemma round_double_five_halves: "round_double (5 / 2) = 5 / 2"
proof -
  have "round_up 1074 (5 / 2) = real_of_int (rne (5 / 2 * 2 ^ 51)) / 2 ^ 51"
    by (rule round_up_scaled) simp_all
  also have "5 / 2 * (2 :: real) ^ 51 = real_of_int 5629499534213120"
    by simp
  finally show ?thesis
    by (simp add: round_double_def Let_def rne_def)
qed

section \<open>Basic facts about the handlers\<close>

lemma timer_inv_cases:
  "timer_inv s \<Longrightarrow> timers s = [] \<or> (\<exists>i d. timers s = [(i, d)] \<and> silenceTimerRef s = Some i)"
  by (cases "timers s") (auto simp: timer_inv_def)

lemma timers_clearSilenceTimer:
  "timer_inv s \<Longrightarrow> timers (clearSilenceTimer s) = []"
  by (cases "timers s")
     (auto simp: timer_inv_def clearSilenceTimer_def clearTimeout_def split: option.splits)

lemma clearSilenceTimer_eq:
  "clearSilenceTimer s = s\<lparr> timers := timers (clearSilenceTimer s) \<rparr>"
  by (simp add: clearSilenceTimer_def clearTimeout_def split: option.splits)

lemma restart_timer:
  "timer_inv s \<Longrightarrow>
     startSilenceTimer now (clearSilenceTimer s) =
       s\<lparr> timers := [(nextTimerId s, now + SILENCE_TOLERANCE_MS)],
          nextTimerId := Suc (nextTimerId s),
          silenceTimerRef := Some (nextTimerId s) \<rparr>"
  by (subst clearSilenceTimer_eq)
     (simp add: timers_clearSilenceTimer startSilenceTimer_def setTimeout_def)

lemma timer_inv_upd [simp]:
  "timer_inv (s\<lparr> babyState := b \<rparr>) = timer_inv s"
  "timer_inv (s\<lparr> lastSpeechTimeRef := l \<rparr>) = timer_inv s"
  "timer_inv (s\<lparr> console := c \<rparr>) = timer_inv s"
  "timer_inv (s\<lparr> isConnected := ic \<rparr>) = timer_inv s"
  "timer_inv (s\<lparr> mode := m \<rparr>) = timer_inv s"
  "timer_inv (s\<lparr> isPaused := p \<rparr>) = timer_inv s"
  "timer_inv (s\<lparr> isPausedRef := p \<rparr>) = timer_inv s"
  "timer_inv (s\<lparr> volume := v \<rparr>) = timer_inv s"
  "timer_inv (s\<lparr> outbound := ob \<rparr>) = timer_inv s"
  "timer_inv (s\<lparr> playing := pl \<rparr>) = timer_inv s"
  "timer_inv (s\<lparr> audioSourcesRef := a \<rparr>) = timer_inv s"
  "timer_inv (s\<lparr> nextStartTimeRef := n \<rparr>) = timer_inv s"
  "timer_inv (s\<lparr> nextSourceId := k \<rparr>) = timer_inv s"
  "timer_inv (s\<lparr> decoding := ds \<rparr>) = timer_inv s"
  by (simp_all add: timer_inv_def)

lemma handleSpeechDetected_eq:
  "\<not> isPausedRef s \<Longrightarrow> timer_inv s \<Longrightarrow>
     handleSpeechDetected now s =
       s\<lparr> lastSpeechTimeRef := now,
          babyState := (if babyState s = CRYING \<or> babyState s = SLEEPING
                        then LISTENING else babyState s),
          timers := [(nextTimerId s, now + SILENCE_TOLERANCE_MS)],
          nextTimerId := Suc (nextTimerId s),
          silenceTimerRef := Some (nextTimerId s) \<rparr>"
  by (simp add: handleSpeechDetected_def Let_def restart_timer)

lemma onopen_eq:
  "timer_inv s \<Longrightarrow>
     onopen now s =
       s\<lparr> console := console s @ [''Gemini Live Connected''],
          isConnected := True, mode := ACTIVE, babyState := LISTENING,
          lastSpeechTimeRef := now,
          timers := [(nextTimerId s, now + SILENCE_TOLERANCE_MS)],
          nextTimerId := Suc (nextTimerId s),
          silenceTimerRef := Some (nextTimerId s) \<rparr>"
  by (simp add: onopen_def Let_def restart_timer)

lemma fold_stopSource:
  "fold stopSource srcs s =
     s\<lparr> playing := filter (\<lambda>x. source_id x \<notin> source_id ` set srcs) (playing s) \<rparr>"
proof (induction srcs arbitrary: s)
  case Nil
  then show ?case by simp
next
  case (Cons a srcs)
  have "fold stopSource (a # srcs) s = fold stopSource srcs (stopSource a s)"
    by simp
  also have "\<dots> = (stopSource a s)\<lparr> playing :=
       filter (\<lambda>x. source_id x \<notin> source_id ` set srcs) (playing (stopSource a s)) \<rparr>"
    by (rule Cons.IH)
  also have "\<dots> = s\<lparr> playing :=
       filter (\<lambda>x. source_id x \<notin> source_id ` set (a # srcs)) (playing s) \<rparr>"
    by (auto simp: stopSource_def intro: filter_cong)
  finally show ?case .
qed

lemma togglePause_pause_eq:
  "\<not> isPaused s \<Longrightarrow> timer_inv s \<Longrightarrow> playback_inv s \<Longrightarrow>
     togglePause now s =
       s\<lparr> isPaused := True, isPausedRef := True, timers := [], babyState := PAUSED,
          volume := 0, playing := [], audioSourcesRef := [], nextStartTimeRef := 0 \<rparr>"
proof -
  assume a: "\<not> isPaused s" "timer_inv s" "playback_inv s"
  have f: "filter (\<lambda>x. source_id x \<notin> source_id ` set (audioSourcesRef s)) (playing s) = []"
    using a(3) by (auto simp: playback_inv_def filter_empty_conv)
  have c: "clearSilenceTimer (s\<lparr> isPaused := True, isPausedRef := True \<rparr>)
           = s\<lparr> isPaused := True, isPausedRef := True, timers := [] \<rparr>"
    by (subst clearSilenceTimer_eq) (simp add: timers_clearSilenceTimer a(2))
  show ?thesis
    using a(1) by (simp add: togglePause_def Let_def c fold_stopSource f)
qed

lemma togglePause_resume_eq:
  "isPaused s \<Longrightarrow> timer_inv s \<Longrightarrow>
     togglePause now s =
       s\<lparr> isPaused := False, isPausedRef := False, babyState := LISTENING,
          lastSpeechTimeRef := now,
          timers := [(nextTimerId s, now + SILENCE_TOLERANCE_MS)],
          nextTimerId := Suc (nextTimerId s),
          silenceTimerRef := Some (nextTimerId s) \<rparr>"
  by (simp add: togglePause_def Let_def restart_timer)

lemma advance_single:
  "timers s = [(i, d)] \<Longrightarrow>
     advance t s = (if d \<le> t then s\<lparr> timers := [], babyState := CRYING \<rparr> else s)"
  by (simp add: advance_def fireTimer_def)

lemma advance_none: "timers s = [] \<Longrightarrow> advance t s = s"
  by (simp add: advance_def)

text \<open>The definitions a concrete run is evaluated with.\<close>

lemmas handler_defs =
  initApp_def onopen_def onclose_def onerror_def startSessionFailed_def
  handleSpeechDetected_def onaudioprocess_def onmessage_def onended_def
  awaited_def onmessage_resume_def onmessage_suspend_def onmessage_settle_def
  stopSource_def togglePause_def base64Audio_def rms_def
  setTimeout_def clearTimeout_def clearSilenceTimer_def startSilenceTimer_def
  fireTimer_def advance_def SILENCE_TOLERANCE_MS_def SPEECH_THRESHOLD_def
  timer_inv_def playback_inv_def Let_def

section \<open>Speech detection\<close>

text \<open>
  C3. In every state that is not paused (and whose only pending timer is the tracked
  one), a detected speech frame yields LISTENING from CRYING or SLEEPING and leaves
  LISTENING and HAPPY unchanged; in each case the tracked silence timer is cancelled
  and exactly one new timer is pending, due at \<open>now + SILENCE_TOLERANCE_MS\<close>.
  The capture callback with a frame above the threshold does the same.
\<close>
theorem speech_detected_transition:
  assumes "\<not> isPausedRef s" and "timer_inv s"
  shows "(babyState s = CRYING \<or> babyState s = SLEEPING
            \<longrightarrow> babyState (handleSpeechDetected now s) = LISTENING)
       \<and> (babyState s = LISTENING \<or> babyState s = HAPPY
            \<longrightarrow> babyState (handleSpeechDetected now s) = babyState s)
       \<and> timers (handleSpeechDetected now s) = [(nextTimerId s, now + SILENCE_TOLERANCE_MS)]
       \<and> silenceTimerRef (handleSpeechDetected now s) = Some (nextTimerId s)
       \<and> (rms inputData > SPEECH_THRESHOLD
            \<longrightarrow> babyState (onaudioprocess now inputData s) = babyState (handleSpeechDetected now s)
              \<and> timers (onaudioprocess now inputData s) = timers (handleSpeechDetected now s)
              \<and> silenceTimerRef (onaudioprocess now inputData s) = Some (nextTimerId s))"
  using assms by (simp add: handleSpeechDetected_eq onaudioprocess_def Let_def)

theorem speech_detected_transition_witness:
  "babyState (handleSpeechDetected 2500 (advance 2000 (onopen 0 (initApp 0)))) = LISTENING
   \<and> timers (handleSpeechDetected 2500 (advance 2000 (onopen 0 (initApp 0)))) = [(2, 4500)]
   \<and> babyState (handleSpeechDetected 700 (onopen 0 (initApp 0))) = LISTENING
   \<and> timers (handleSpeechDetected 700 (onopen 0 (initApp 0))) = [(2, 2700)]
   \<and> timers (onaudioprocess 700 [1] (onopen 0 (initApp 0))) = [(2, 2700)]"
proof -
  let ?c = "advance 2000 (onopen 0 (initApp 0))"
  let ?l = "onopen 0 (initApp 0)"
  have c: "\<not> isPausedRef ?c" "timer_inv ?c" "babyState ?c = CRYING \<or> babyState ?c = SLEEPING"
          "nextTimerId ?c = 2"
    by (simp_all add: handler_defs)
  have l: "\<not> isPausedRef ?l" "timer_inv ?l" "babyState ?l = LISTENING \<or> babyState ?l = HAPPY"
          "nextTimerId ?l = 2" "babyState ?l = LISTENING"
    by (simp_all add: handler_defs)
  have r: "rms [1] > SPEECH_THRESHOLD"
    by (simp add: rms_def SPEECH_THRESHOLD_def)
  show ?thesis
    using speech_detected_transition [OF c(1) c(2), of 2500 "[1]"]
          speech_detected_transition [OF l(1) l(2), of 700 "[1]"] c(3,4) l(3,4,5) r
    by (simp add: SILENCE_TOLERANCE_MS_def)
qed

section \<open>Pause\<close>

text \<open>
  C4. Pausing (the toggle while not paused) yields PAUSED from any mood, leaves no
  timer pending, stops every source that was in flight, empties the tracked set and
  puts the playback cursor back to 0, whatever timers and chunks were pending.
\<close>
theorem pause_requested:
  assumes "\<not> isPaused s" and "timer_inv s" and "playback_inv s"
  shows "babyState (togglePause now s) = PAUSED
       \<and> isPaused (togglePause now s) \<and> isPausedRef (togglePause now s)
       \<and> timers (togglePause now s) = []
       \<and> playing (togglePause now s) = []
       \<and> audioSourcesRef (togglePause now s) = []
       \<and> nextStartTimeRef (togglePause now s) = 0"
  using assms by (simp add: togglePause_pause_eq)

theorem pause_requested_witness:
  "timers (onmessage (\<lambda>b. Some \<lparr>duration = 1 / 2\<rparr>) 1 \<lparr>parts = Some [Some ''AA'']\<rparr>
             (onopen 0 (initApp 0))) \<noteq> []
   \<and> playing (onmessage (\<lambda>b. Some \<lparr>duration = 1 / 2\<rparr>) 1 \<lparr>parts = Some [Some ''AA'']\<rparr>
             (onopen 0 (initApp 0))) \<noteq> []
   \<and> babyState (togglePause 100
        (onmessage (\<lambda>b. Some \<lparr>duration = 1 / 2\<rparr>) 1 \<lparr>parts = Some [Some ''AA'']\<rparr>
             (onopen 0 (initApp 0)))) = PAUSED
   \<and> timers (togglePause 100
        (onmessage (\<lambda>b. Some \<lparr>duration = 1 / 2\<rparr>) 1 \<lparr>parts = Some [Some ''AA'']\<rparr>
             (onopen 0 (initApp 0)))) = []
   \<and> playing (togglePause 100
        (onmessage (\<lambda>b. Some \<lparr>duration = 1 / 2\<rparr>) 1 \<lparr>parts = Some [Some ''AA'']\<rparr>
             (onopen 0 (initApp 0)))) = []
   \<and> nextStartTimeRef (togglePause 100
        (onmessage (\<lambda>b. Some \<lparr>duration = 1 / 2\<rparr>) 1 \<lparr>parts = Some [Some ''AA'']\<rparr>
             (onopen 0 (initApp 0)))) = 0"
proof -
  let ?s = "onmessage (\<lambda>b. Some \<lparr>duration = 1 / 2\<rparr>) 1 \<lparr>parts = Some [Some ''AA'']\<rparr>
             (onopen 0 (initApp 0))"
  have h: "\<not> isPaused ?s" "timer_inv ?s" "playback_inv ?s"
    by (simp_all add: handler_defs)
  have n: "timers ?s \<noteq> []" "playing ?s \<noteq> []"
    by (simp_all add: handler_defs)
  show ?thesis
    using pause_requested [OF h, of 100] n by simp
qed

section \<open>Session close\<close>

text \<open>
  C5. The close callback does not set the mood to SLEEPING: after an open, the mood
  is still LISTENING once the channel has closed.
\<close>
theorem onclose_counterexample:
  "babyState (onclose (onopen 0 (initApp 0))) \<noteq> SLEEPING"
  by (simp add: handler_defs)

text \<open>
  C5, as the code has it: the close callback leaves the mood, the pause flag and the
  pending timers as they were and only marks the session as disconnected.
\<close>
theorem onclose_keeps_mood:
  "babyState (onclose s) = babyState s
   \<and> \<not> isConnected (onclose s)
   \<and> timers (onclose s) = timers s
   \<and> isPaused (onclose s) = isPaused s"
  by (simp add: onclose_def)

section \<open>Resume\<close>



text \<open>A pause request is offered exactly while the session is not paused.\<close>

lemma deliver_pause:
  "\<not> isPaused s \<Longrightarrow> deliver PauseRequested now s = togglePause now s"
  "isPaused s \<Longrightarrow> deliver PauseRequested now s = s"
  by (simp_all add: deliver_def offered_def)

section \<open>Inbound messages\<close>

text \<open>
  C8. When the payload of an inbound message fails to decode, the only effect is the
  logged decode error: cursor, tracked set, playing sources, mood, mode and connection
  flag are those of before, and the next message is scheduled exactly as if the
  failed one had never arrived.
\<close>
theorem decode_failure_dropped:
  assumes "\<not> isPausedRef s" and "base64Audio m = Some b" and "b \<noteq> []" and "dec b = None"
  shows "onmessage dec t m s = s\<lparr> console := console s @ [''Audio decode error''] \<rparr>
       \<and> nextStartTimeRef (onmessage dec t' m' (onmessage dec t m s))
           = nextStartTimeRef (onmessage dec t' m' s)
       \<and> playing (onmessage dec t' m' (onmessage dec t m s)) = playing (onmessage dec t' m' s)
       \<and> audioSourcesRef (onmessage dec t' m' (onmessage dec t m s))
           = audioSourcesRef (onmessage dec t' m' s)"
proof -
  have 1: "onmessage dec t m s = s\<lparr> console := console s @ [''Audio decode error''] \<rparr>"
    using assms by (simp add: onmessage_def awaited_def onmessage_resume_def)
  show ?thesis
    unfolding 1
    by (simp add: onmessage_def awaited_def onmessage_resume_def Let_def split: option.splits)
qed

theorem decode_failure_dropped_witness:
  "console (onmessage (\<lambda>b. if b = ''!!'' then None else Some \<lparr>duration = 1 / 2\<rparr>) 1
              \<lparr>parts = Some [Some ''!!'']\<rparr> (onopen 0 (initApp 0)))
     = [''Gemini Live Connected'', ''Audio decode error'']
   \<and> nextStartTimeRef (onmessage (\<lambda>b. if b = ''!!'' then None else Some \<lparr>duration = 1 / 2\<rparr>) 1
              \<lparr>parts = Some [Some ''!!'']\<rparr> (onopen 0 (initApp 0))) = 0
   \<and> nextStartTimeRef
        (onmessage (\<lambda>b. if b = ''!!'' then None else Some \<lparr>duration = 1 / 2\<rparr>) 2
           \<lparr>parts = Some [Some ''AA'']\<rparr>
           (onmessage (\<lambda>b. if b = ''!!'' then None else Some \<lparr>duration = 1 / 2\<rparr>) 1
              \<lparr>parts = Some [Some ''!!'']\<rparr> (onopen 0 (initApp 0)))) = 5 / 2"
proof -
  let ?dec = "\<lambda>b. if b = ''!!'' then None else Some \<lparr>duration = 1 / 2\<rparr>"
  let ?s = "onopen 0 (initApp 0)"
  have h: "\<not> isPausedRef ?s" "base64Audio \<lparr>parts = Some [Some ''!!'']\<rparr> = Some ''!!''"
          "''!!'' \<noteq> []" "?dec ''!!'' = None"
    by (simp_all add: handler_defs)
  have g: "nextStartTimeRef (onmessage ?dec 2 \<lparr>parts = Some [Some ''AA'']\<rparr> ?s) = 5 / 2"
          "console ?s = [''Gemini Live Connected'']" "nextStartTimeRef ?s = 0"
    by (simp_all add: handler_defs round_double_five_halves)
  note d = decode_failure_dropped [of ?s "\<lparr>parts = Some [Some ''!!'']\<rparr>" "''!!''" ?dec 1 2
            "\<lparr>parts = Some [Some ''AA'']\<rparr>", OF h]
  have 1: "console (onmessage ?dec 1 \<lparr>parts = Some [Some ''!!'']\<rparr> ?s)
             = [''Gemini Live Connected'', ''Audio decode error'']"
          "nextStartTimeRef (onmessage ?dec 1 \<lparr>parts = Some [Some ''!!'']\<rparr> ?s) = 0"
    by (simp_all add: d [THEN conjunct1] g)
  have 2: "nextStartTimeRef (onmessage ?dec 2 \<lparr>parts = Some [Some ''AA'']\<rparr>
             (onmessage ?dec 1 \<lparr>parts = Some [Some ''!!'']\<rparr> ?s)) = 5 / 2"
    by (simp only: d [THEN conjunct2, THEN conjunct1] g)
  show ?thesis
    using 1 2 by blast
qed

text \<open>
  C10. While paused, inbound messages leave the whole state unchanged, whatever their
  payload and whatever the decoder would do with it; a later resume therefore starts
  from the state it would have started from without them.
\<close>
theorem paused_message_discarded:
  assumes "isPausedRef s"
  shows "fold (\<lambda>(t, m). onmessage dec t m) ms s = s
       \<and> togglePause now (fold (\<lambda>(t, m). onmessage dec t m) ms s) = togglePause now s"
proof -
  have "fold (\<lambda>(t, m). onmessage dec t m) ms s = s"
    using assms by (induction ms) (auto simp: onmessage_def awaited_def)
  then show ?thesis by simp
qed

theorem paused_message_discarded_witness:
  "isPausedRef (togglePause 100 (onopen 0 (initApp 0)))
   \<and> fold (\<lambda>(t, m). onmessage (\<lambda>b. Some \<lparr>duration = 1 / 2\<rparr>) t m)
        [(1, \<lparr>parts = Some [Some ''AA'']\<rparr>), (2, \<lparr>parts = Some [Some ''BB'']\<rparr>)]
        (togglePause 100 (onopen 0 (initApp 0)))
      = togglePause 100 (onopen 0 (initApp 0))
   \<and> playing (togglePause 200
        (fold (\<lambda>(t, m). onmessage (\<lambda>b. Some \<lparr>duration = 1 / 2\<rparr>) t m)
          [(1, \<lparr>parts = Some [Some ''AA'']\<rparr>), (2, \<lparr>parts = Some [Some ''BB'']\<rparr>)]
          (togglePause 100 (onopen 0 (initApp 0))))) = []"
proof -
  let ?s = "togglePause 100 (onopen 0 (initApp 0))"
  have h: "isPausedRef ?s"
    by (simp add: handler_defs)
  have g: "playing (togglePause 200 ?s) = []"
    by (simp add: handler_defs)
  show ?thesis
    using paused_message_discarded [OF h, of "\<lambda>b. Some \<lparr>duration = 1 / 2\<rparr>"
            "[(1, \<lparr>parts = Some [Some ''AA'']\<rparr>), (2, \<lparr>parts = Some [Some ''BB'']\<rparr>)]" 200] h g
    by simp
qed

section \<open>Gapless scheduling\<close>

lemma onmessage_resume_success:
  assumes "dec b = Some buf"
  shows "onmessage_resume dec t b s =
     s\<lparr> nextStartTimeRef :=
          round_double ((if nextStartTimeRef s < t then t else nextStartTimeRef s) + duration buf),
        audioSourcesRef := audioSourcesRef s @
          [\<lparr> source_id = nextSourceId s, buffer = buf,
             start_at = (if nextStartTimeRef s < t then t else nextStartTimeRef s) \<rparr>],
        playing := playing s @
          [\<lparr> source_id = nextSourceId s, buffer = buf,
             start_at = (if nextStartTimeRef s < t then t else nextStartTimeRef s) \<rparr>],
        nextSourceId := Suc (nextSourceId s) \<rparr>"
  using assms by (simp add: onmessage_resume_def Let_def)

text \<open>A decode that settles with a buffer schedules it: the new source is the last one
  started, it starts at the cursor or at the current time, and the cursor moves to the
  rounded sum of that start and the duration.\<close>

lemma settle_schedules:
  assumes "i < length (decoding s)" and "dec (decoding s ! i) = Some buf"
  shows "playing (dispatch dec now (Decoded t i) s) \<noteq> []
       \<and> buffer (last (playing (dispatch dec now (Decoded t i) s))) = buf
       \<and> start_at (last (playing (dispatch dec now (Decoded t i) s)))
           = (if nextStartTimeRef s < t then t else nextStartTimeRef s)
       \<and> nextStartTimeRef (dispatch dec now (Decoded t i) s)
           = round_double ((if nextStartTimeRef s < t then t else nextStartTimeRef s) + duration buf)"
proof -
  let ?s' = "s\<lparr> decoding := take i (decoding s) @ drop (Suc i) (decoding s) \<rparr>"
  have "dispatch dec now (Decoded t i) s = onmessage_resume dec t (decoding s ! i) ?s'"
    using assms(1) by (simp add: onmessage_settle_def)
  then show ?thesis
    by (simp add: onmessage_resume_success [where dec = dec, OF assms(2)])
qed

lemma restart_cursor:
  "nextStartTimeRef (startSilenceTimer now (clearSilenceTimer s)) = nextStartTimeRef s"
  by (simp add: startSilenceTimer_def setTimeout_def clearSilenceTimer_def clearTimeout_def
        split: option.splits)

lemma advance_cursor: "nextStartTimeRef (advance t s) = nextStartTimeRef s"
proof -
  have "nextStartTimeRef (fold fireTimer js s) = nextStartTimeRef s" for js
    by (induction js arbitrary: s) (simp_all add: fireTimer_def)
  then show ?thesis
    by (simp add: advance_def)
qed

lemma tiny: "0 \<le> 1 / (2 :: real) ^ 1075" "1 / (2 :: real) ^ 1075 \<le> 1 / 8"
  by simp_all

lemma round_double_clock_plus_half:
  "round_double (6148914691236517 / 2 ^ 60 + 1 / 2) = 4551638023395781 / 2 ^ 53"
proof -
  let ?x = "6148914691236517 / 2 ^ 60 + 1 / 2 :: real"
  have "round_up 1074 ?x = real_of_int (rne (?x * 2 ^ 53)) / 2 ^ 53"
    by (rule round_up_scaled) simp_all
  moreover have "rne (?x * 2 ^ 53) = 4551638023395781"
    by (simp add: rne_def Let_def)
  ultimately show ?thesis
    by (simp add: round_double_def Let_def)
qed

lemma round_double_fifteen_halves: "round_double (15 / 2) = 15 / 2"
proof -
  have "round_up 1074 (15 / 2) = real_of_int (rne (15 / 2 * 2 ^ 50)) / 2 ^ 50"
    by (rule round_up_scaled) simp_all
  moreover have "rne (15 / 2 * 2 ^ 50) = 8444249301319680"
    by (simp add: rne_def Let_def)
  ultimately show ?thesis
    by (simp add: round_double_def Let_def)
qed

lemma onmessage_awaited:
  "awaited m s = Some b \<Longrightarrow> onmessage dec t m s = onmessage_resume dec t b s"
  by (simp add: onmessage_def)

text \<open>
  C6. In double arithmetic the start times are not separated by exactly the duration.
  With the audio clock at its first tick after 0 at 24000 Hz (128 / 24000, as a double
  6148914691236517 / 2 ^ 60) and an idle scheduler, a chunk of 500 ms starts at that
  time, the cursor becomes the rounded sum 4551638023395781 / 2 ^ 53, and the chunk
  enqueued after it at the same instant starts there: 37 / 2 ^ 60 s less than 500 ms
  after the first.
\<close>

theorem gapless_exact_counterexample:
  "start_at (last (playing
      (onmessage (\<lambda>b. if b = ''AA'' then Some \<lparr>duration = 1 / 2\<rparr>
                       else Some \<lparr>duration = 5404319552844595 / 2 ^ 54\<rparr>)
         (6148914691236517 / 2 ^ 60) \<lparr>parts = Some [Some ''BB'']\<rparr>
         (onmessage (\<lambda>b. if b = ''AA'' then Some \<lparr>duration = 1 / 2\<rparr>
                          else Some \<lparr>duration = 5404319552844595 / 2 ^ 54\<rparr>)
            (6148914691236517 / 2 ^ 60) \<lparr>parts = Some [Some ''AA'']\<rparr>
            (onopen 0 (initApp 0))))))
   - start_at (last (playing
      (onmessage (\<lambda>b. if b = ''AA'' then Some \<lparr>duration = 1 / 2\<rparr>
                       else Some \<lparr>duration = 5404319552844595 / 2 ^ 54\<rparr>)
         (6148914691236517 / 2 ^ 60) \<lparr>parts = Some [Some ''AA'']\<rparr>
         (onopen 0 (initApp 0)))))
   \<noteq> 1 / 2"
proof -
  let ?dec = "\<lambda>b. if b = ''AA'' then Some \<lparr>duration = 1 / 2\<rparr>
                   else Some \<lparr>duration = (5404319552844595 / 2 ^ 54 :: real)\<rparr>"
  let ?c = "6148914691236517 / 2 ^ 60 :: real"
  let ?s1 = "onmessage ?dec ?c \<lparr>parts = Some [Some ''AA'']\<rparr> (onopen 0 (initApp 0))"
  let ?s2 = "onmessage ?dec ?c \<lparr>parts = Some [Some ''BB'']\<rparr> ?s1"
  have a1: "awaited \<lparr>parts = Some [Some ''AA'']\<rparr> (onopen 0 (initApp 0)) = Some ''AA''"
    by (simp add: handler_defs)
  have c0: "nextStartTimeRef (onopen 0 (initApp 0)) = 0"
    by (simp add: handler_defs)
  have s1: "?s1 = onmessage_resume ?dec ?c ''AA'' (onopen 0 (initApp 0))"
    by (rule onmessage_awaited [OF a1])
  have first: "start_at (last (playing ?s1)) = ?c"
    and cur: "nextStartTimeRef ?s1 = round_double (?c + 1 / 2)"
    and np: "\<not> isPausedRef ?s1"
    unfolding s1
    by (simp_all add: onmessage_resume_success [where dec = "?dec" and buf = "\<lparr>duration = 1 / 2\<rparr>"] c0)
       (simp add: handler_defs)
  have a2: "awaited \<lparr>parts = Some [Some ''BB'']\<rparr> ?s1 = Some ''BB''"
    using np by (simp add: awaited_def base64Audio_def)
  have s2: "?s2 = onmessage_resume ?dec ?c ''BB'' ?s1"
    by (rule onmessage_awaited [OF a2])
  have "start_at (last (playing ?s2))
          = (if nextStartTimeRef ?s1 < ?c then ?c else nextStartTimeRef ?s1)"
    unfolding s2
    by (simp add: onmessage_resume_success [where dec = "?dec"
                    and buf = "\<lparr>duration = 5404319552844595 / 2 ^ 54\<rparr>"])
  then have second: "start_at (last (playing ?s2)) = 4551638023395781 / 2 ^ 53"
    unfolding cur round_double_clock_plus_half by simp
  show ?thesis
    unfolding first second by simp
qed

lemma cursor_step:
  assumes "no_chunk dec e s"
  shows "nextStartTimeRef (dispatch dec now e s)
           = (if e = TogglePause \<and> \<not> isPaused s then 0 else nextStartTimeRef s)"
proof (cases e)
  case Open
  then show ?thesis
    by (simp add: onopen_def Let_def restart_cursor)
next
  case (Message m)
  then show ?thesis
    by (simp add: onmessage_suspend_def split: option.splits)
next
  case (Decoded t i)
  then show ?thesis
    using assms by (auto simp: onmessage_settle_def onmessage_resume_def)
next
  case (AudioProcess f)
  then show ?thesis
    by (simp add: onaudioprocess_def handleSpeechDetected_def Let_def restart_cursor)
next
  case TogglePause
  then show ?thesis
    by (simp add: togglePause_def Let_def restart_cursor)
qed (simp_all add: onclose_def onerror_def onended_def startSessionFailed_def)

text \<open>With no chunk scheduled, the cursor at the end of a run is the one at its start,
  or 0 when a pause request came.\<close>

lemma between_cursor:
  "between dec evs s \<Longrightarrow>
     nextStartTimeRef (run dec evs s) = (if pause_in dec evs s then 0 else nextStartTimeRef s)"
proof (induction evs arbitrary: s)
  case Nil
  then show ?case by simp
next
  case (Cons a evs)
  obtain t e where a: "a = (t, e)" by (cases a)
  define s' where "s' = dispatch dec t e (advance t s)"
  have k: "no_chunk dec e (advance t s)" and b: "between dec evs s'"
    using Cons.prems a by (simp_all add: s'_def)
  have step: "nextStartTimeRef s'
                = (if e = TogglePause \<and> \<not> isPaused (advance t s) then 0 else nextStartTimeRef s)"
    unfolding s'_def using k by (simp only: cursor_step advance_cursor)
  have ih: "nextStartTimeRef (run dec evs s') = (if pause_in dec evs s' then 0 else nextStartTimeRef s')"
    using b by (rule Cons.IH)
  have r: "run dec (a # evs) s = run dec evs s'"
    and p: "pause_in dec (a # evs) s
              = ((e = TogglePause \<and> \<not> isPaused (advance t s)) \<or> pause_in dec evs s')"
    by (simp_all add: a s'_def)
  show ?case
  proof (cases "e = TogglePause \<and> \<not> isPaused (advance t s)")
    case True
    then have "nextStartTimeRef s' = 0"
      using step by auto
    then have "nextStartTimeRef (run dec evs s') = 0"
      using ih by simp
    then show ?thesis
      unfolding r p using True by auto
  next
    case False
    then have "nextStartTimeRef s' = nextStartTimeRef s"
      using step by auto
    then have "nextStartTimeRef (run dec evs s')
                 = (if pause_in dec evs s' then 0 else nextStartTimeRef s)"
      using ih by simp
    then show ?thesis
      unfolding r p using False by auto
  qed
qed

text \<open>
  C6, as the code has it. A chunk is scheduled when its decode settles. It starts at
  the cursor, or at the current time when the cursor is behind it (the scheduler was
  idle). For the chunk scheduled next, after any events whatever in between (frames,
  timers, messages arriving, decodes failing, sources ending, open, close, error,
  pause, resume), the cursor is the one the first chunk left, or 0 when a pause
  request came in between, and the chunk starts there, or at the current time when
  that is already past. The cursor a chunk leaves is its start plus its duration,
  rounded to the nearest double: within half a unit in the last place of the exact
  sum. So a chunk of 500 ms and the chunk scheduled after it at the same instant start
  500 ms apart up to that rounding.
\<close>

theorem gapless_schedule:
  assumes "i1 < length (decoding s)"
    and "dec (decoding s ! i1) = Some buf1"
    and "between dec evs (dispatch dec now1 (Decoded t1 i1) s)"
    and "i2 < length (decoding (run dec evs (dispatch dec now1 (Decoded t1 i1) s)))"
    and "dec (decoding (run dec evs (dispatch dec now1 (Decoded t1 i1) s)) ! i2) = Some buf2"
  shows "let s1 = dispatch dec now1 (Decoded t1 i1) s;
             first = last (playing s1);
             next = last (playing (dispatch dec now2 (Decoded t2 i2) (run dec evs s1)));
             sum = start_at first + duration (buffer first);
             cursor = (if pause_in dec evs s1 then 0 else round_double sum)
         in buffer first = buf1
          \<and> start_at first = (if nextStartTimeRef s < t1 then t1 else nextStartTimeRef s)
          \<and> buffer next = buf2
          \<and> start_at next = (if cursor < t2 then t2 else cursor)
          \<and> \<bar>round_double sum - sum\<bar> \<le> \<bar>sum\<bar> / 2 ^ 53 + 1 / 2 ^ 1075
          \<and> (\<not> pause_in dec evs s1 \<and> t2 = t1 \<and> duration buf1 = 1 / 2
              \<and> 0 \<le> start_at first \<and> start_at first \<le> 2 ^ 51
               \<longrightarrow> \<bar>start_at next - start_at first - 1 / 2\<bar>
                     \<le> (start_at first + 1 / 2) / 2 ^ 53 + 1 / 2 ^ 1075)"
proof -
  let ?s1 = "dispatch dec now1 (Decoded t1 i1) s"
  let ?s2 = "run dec evs ?s1"
  let ?s3 = "dispatch dec now2 (Decoded t2 i2) ?s2"
  let ?first = "last (playing ?s1)"
  let ?next = "last (playing ?s3)"
  let ?sum = "start_at ?first + duration (buffer ?first)"
  let ?cursor = "if pause_in dec evs ?s1 then 0 else round_double ?sum"
  note f = settle_schedules [where dec = dec and s = s and i = i1 and buf = buf1
             and now = now1 and t = t1, OF assms(1,2)]
  have b1: "buffer ?first = buf1"
    and st1: "start_at ?first = (if nextStartTimeRef s < t1 then t1 else nextStartTimeRef s)"
    using f by simp_all
  have c1: "nextStartTimeRef ?s1 = round_double ?sum"
    using f by simp
  have c2: "nextStartTimeRef ?s2 = ?cursor"
    using between_cursor [OF assms(3)] c1 by simp
  note n = settle_schedules [where dec = dec and s = "run dec evs (dispatch dec now1 (Decoded t1 i1) s)"
             and i = i2 and buf = buf2 and now = now2 and t = t2, OF assms(4,5)]
  have b2: "buffer ?next = buf2"
    using n by simp
  have st2: "start_at ?next = (if ?cursor < t2 then t2 else ?cursor)"
    using n unfolding c2 by blast
  have err: "\<bar>round_double ?sum - ?sum\<bar> \<le> \<bar>?sum\<bar> / 2 ^ 53 + 1 / 2 ^ 1075"
    by (rule round_double_error)
  have half: "\<bar>start_at ?next - start_at ?first - 1 / 2\<bar>
                \<le> (start_at ?first + 1 / 2) / 2 ^ 53 + 1 / 2 ^ 1075"
    if h: "\<not> pause_in dec evs ?s1" "t2 = t1" "duration buf1 = 1 / 2"
          "0 \<le> start_at ?first" "start_at ?first \<le> 2 ^ 51"
  proof -
    define e :: real where "e = 1 / 2 ^ 1075"
    define x where "x = start_at ?first"
    define c where "c = round_double ?sum"
    have e: "0 \<le> e" "e \<le> 1 / 8"
      unfolding e_def by (rule tiny)+
    have sum: "?sum = x + 1 / 2"
      using b1 h(3) by (simp add: x_def)
    have x: "0 \<le> x" "x \<le> 2 ^ 51" "t1 \<le> x"
      using h(4,5) st1 by (simp_all add: x_def)
    have bound: "\<bar>c - (x + 1 / 2)\<bar> \<le> (x + 1 / 2) / 2 ^ 53 + e"
      using err x(1) unfolding sum c_def e_def by simp
    have q: "(x + 1 / 2) / 2 ^ 53 \<le> 3 / 8"
      using x(1,2) by simp
    have "t1 \<le> c"
      using bound e x(3) q unfolding abs_le_iff by linarith
    moreover have "start_at ?next = (if c < t2 then t2 else c)"
      using st2 h(1) by (simp add: c_def)
    ultimately have "start_at ?next = c"
      using h(2) by simp
    then show ?thesis
      using bound by (simp add: x_def e_def)
  qed
  show ?thesis
    unfolding Let_def using b1 st1 b2 st2 err half by blast
qed

theorem gapless_schedule_witness:
  "start_at (last (playing
      (dispatch (\<lambda>b. if b = ''AA'' then Some \<lparr>duration = 1 / 2\<rparr> else Some \<lparr>duration = 1 / 4\<rparr>)
         30 (Decoded 7 0)
         (run (\<lambda>b. if b = ''AA'' then Some \<lparr>duration = 1 / 2\<rparr> else Some \<lparr>duration = 1 / 4\<rparr>)
            [(0, Open), (10, Message \<lparr>parts = Some [Some ''AA'']\<rparr>),
             (20, Message \<lparr>parts = Some [Some ''BB'']\<rparr>)]
            (initApp 0))))) = 7
   \<and> start_at (last (playing
      (dispatch (\<lambda>b. if b = ''AA'' then Some \<lparr>duration = 1 / 2\<rparr> else Some \<lparr>duration = 1 / 4\<rparr>)
         200 (Decoded 7 0)
         (run (\<lambda>b. if b = ''AA'' then Some \<lparr>duration = 1 / 2\<rparr> else Some \<lparr>duration = 1 / 4\<rparr>)
            [(100, AudioProcess [0]), (150, Ended 0), (160, Message \<lparr>parts = None\<rparr>)]
            (dispatch (\<lambda>b. if b = ''AA'' then Some \<lparr>duration = 1 / 2\<rparr> else Some \<lparr>duration = 1 / 4\<rparr>)
               30 (Decoded 7 0)
               (run (\<lambda>b. if b = ''AA'' then Some \<lparr>duration = 1 / 2\<rparr> else Some \<lparr>duration = 1 / 4\<rparr>)
                  [(0, Open), (10, Message \<lparr>parts = Some [Some ''AA'']\<rparr>),
                   (20, Message \<lparr>parts = Some [Some ''BB'']\<rparr>)]
                  (initApp 0))))))) = 15 / 2
   \<and> \<bar>15 / 2 - 7 - 1 / 2\<bar> \<le> (7 + 1 / 2) / 2 ^ 53 + 1 / (2 :: real) ^ 1075
   \<and> start_at (last (playing
      (dispatch (\<lambda>b. if b = ''AA'' then Some \<lparr>duration = 1 / 2\<rparr> else Some \<lparr>duration = 1 / 4\<rparr>)
         200 (Decoded 9 0)
         (run (\<lambda>b. if b = ''AA'' then Some \<lparr>duration = 1 / 2\<rparr> else Some \<lparr>duration = 1 / 4\<rparr>)
            [(100, TogglePause)]
            (dispatch (\<lambda>b. if b = ''AA'' then Some \<lparr>duration = 1 / 2\<rparr> else Some \<lparr>duration = 1 / 4\<rparr>)
               30 (Decoded 7 0)
               (run (\<lambda>b. if b = ''AA'' then Some \<lparr>duration = 1 / 2\<rparr> else Some \<lparr>duration = 1 / 4\<rparr>)
                  [(0, Open), (10, Message \<lparr>parts = Some [Some ''AA'']\<rparr>),
                   (20, Message \<lparr>parts = Some [Some ''BB'']\<rparr>)]
                  (initApp 0))))))) = 9"
proof -
  let ?dec = "\<lambda>b. if b = ''AA'' then Some \<lparr>duration = 1 / 2\<rparr> else Some \<lparr>duration = (1 / 4 :: real)\<rparr>"
  let ?s = "run ?dec [(0, Open), (10, Message \<lparr>parts = Some [Some ''AA'']\<rparr>),
                       (20, Message \<lparr>parts = Some [Some ''BB'']\<rparr>)] (initApp 0)"
  let ?evs = "[(100, AudioProcess [0]), (150, Ended 0), (160, Message \<lparr>parts = None\<rparr>)]"
  let ?pevs = "[(100 :: int, TogglePause)]"
  let ?s1 = "dispatch ?dec 30 (Decoded 7 0) ?s"
  let ?n = "last (playing (dispatch ?dec 200 (Decoded 7 0) (run ?dec ?evs ?s1)))"
  let ?m = "last (playing (dispatch ?dec 200 (Decoded 9 0) (run ?dec ?pevs ?s1)))"
  have d: "decoding ?s = [''AA'', ''BB'']" "nextStartTimeRef ?s = 0"
    by (simp_all add: handler_defs)
  have h1: "0 < length (decoding ?s)" "?dec (decoding ?s ! 0) = Some \<lparr>duration = 1 / 2\<rparr>"
    unfolding d by simp_all
  have h3: "between ?dec ?evs ?s1" and np: "\<not> pause_in ?dec ?evs ?s1"
    by (simp_all add: handler_defs)
  have d2: "decoding (run ?dec ?evs ?s1) = [''BB'']"
    by (simp add: handler_defs)
  have h4: "0 < length (decoding (run ?dec ?evs ?s1))"
           "?dec (decoding (run ?dec ?evs ?s1) ! 0) = Some \<lparr>duration = 1 / 4\<rparr>"
    unfolding d2 by simp_all
  note th = gapless_schedule [where dec = "?dec" and s = "?s" and ?i1.0 = 0 and ?i2.0 = 0
      and ?t1.0 = 7 and ?t2.0 = 7 and ?now1.0 = 30 and ?now2.0 = 200 and evs = "?evs"
      and ?buf1.0 = "\<lparr>duration = 1 / 2\<rparr>" and ?buf2.0 = "\<lparr>duration = 1 / 4\<rparr>",
      OF h1 h3 h4, unfolded Let_def]
  note b_first = th [THEN conjunct1]
  note st_first = th [THEN conjunct2, THEN conjunct1]
  note st_next = th [THEN conjunct2, THEN conjunct2, THEN conjunct2, THEN conjunct1]
  note apart = th [THEN conjunct2, THEN conjunct2, THEN conjunct2, THEN conjunct2, THEN conjunct2]
  have first: "start_at (last (playing ?s1)) = 7"
    unfolding st_first d(2) by simp
  have "round_double (start_at (last (playing ?s1)) + duration (buffer (last (playing ?s1))))
          = 15 / 2"
    unfolding first b_first by (simp add: round_double_fifteen_halves)
  then have "(if pause_in ?dec ?evs ?s1 then 0
              else round_double (start_at (last (playing ?s1)) + duration (buffer (last (playing ?s1)))))
             = 15 / 2"
    using np by (simp only: if_False)
  then have nxt: "start_at ?n = 15 / 2"
    unfolding st_next by simp
  have hyp: "\<not> pause_in ?dec ?evs ?s1 \<and> (7 :: real) = 7 \<and> duration \<lparr>duration = 1 / 2\<rparr> = 1 / 2
             \<and> 0 \<le> start_at (last (playing ?s1)) \<and> start_at (last (playing ?s1)) \<le> 2 ^ 51"
    using np unfolding first by simp
  have "\<bar>start_at ?n - start_at (last (playing ?s1)) - 1 / 2\<bar>
          \<le> (start_at (last (playing ?s1)) + 1 / 2) / 2 ^ 53 + 1 / 2 ^ 1075"
    using hyp by (rule apart [THEN mp])
  then have ap: "\<bar>15 / 2 - 7 - 1 / 2\<bar> \<le> (7 + 1 / 2) / 2 ^ 53 + 1 / (2 :: real) ^ 1075"
    unfolding nxt first .
  have g3: "between ?dec ?pevs ?s1" and pp: "pause_in ?dec ?pevs ?s1"
    by (simp_all add: handler_defs)
  have d3: "decoding (run ?dec ?pevs ?s1) = [''BB'']"
    by (simp add: handler_defs)
  have g4: "0 < length (decoding (run ?dec ?pevs ?s1))"
           "?dec (decoding (run ?dec ?pevs ?s1) ! 0) = Some \<lparr>duration = 1 / 4\<rparr>"
    unfolding d3 by simp_all
  note tp = gapless_schedule [where dec = "?dec" and s = "?s" and ?i1.0 = 0 and ?i2.0 = 0
      and ?t1.0 = 7 and ?t2.0 = 9 and ?now1.0 = 30 and ?now2.0 = 200 and evs = "?pevs"
      and ?buf1.0 = "\<lparr>duration = 1 / 2\<rparr>" and ?buf2.0 = "\<lparr>duration = 1 / 4\<rparr>",
      OF h1 g3 g4, unfolded Let_def]
  note sp_next = tp [THEN conjunct2, THEN conjunct2, THEN conjunct2, THEN conjunct1]
  have "(if pause_in ?dec ?pevs ?s1 then 0
         else round_double (start_at (last (playing ?s1)) + duration (buffer (last (playing ?s1)))))
        = 0"
    using pp by (simp only: if_True)
  then have paused: "start_at ?m = 9"
    unfolding sp_next by simp
  show ?thesis
    using first nxt ap paused by blast
qed

section \<open>The pause override\<close>

lemma playback_inv_upd [simp]:
  "playback_inv (s\<lparr> babyState := b \<rparr>) = playback_inv s"
  "playback_inv (s\<lparr> lastSpeechTimeRef := l \<rparr>) = playback_inv s"
  "playback_inv (s\<lparr> console := c \<rparr>) = playback_inv s"
  "playback_inv (s\<lparr> isConnected := ic \<rparr>) = playback_inv s"
  "playback_inv (s\<lparr> mode := m \<rparr>) = playback_inv s"
  "playback_inv (s\<lparr> isPaused := p \<rparr>) = playback_inv s"
  "playback_inv (s\<lparr> isPausedRef := p \<rparr>) = playback_inv s"
  "playback_inv (s\<lparr> volume := v \<rparr>) = playback_inv s"
  "playback_inv (s\<lparr> outbound := ob \<rparr>) = playback_inv s"
  "playback_inv (s\<lparr> timers := ts \<rparr>) = playback_inv s"
  "playback_inv (s\<lparr> nextTimerId := k \<rparr>) = playback_inv s"
  "playback_inv (s\<lparr> silenceTimerRef := r \<rparr>) = playback_inv s"
  "playback_inv (s\<lparr> nextStartTimeRef := n \<rparr>) = playback_inv s"
  "playback_inv (s\<lparr> nextSourceId := k \<rparr>) = playback_inv s"
  "playback_inv (s\<lparr> decoding := ds \<rparr>) = playback_inv s"
  by (simp_all add: playback_inv_def)

lemma code_inv_init: "code_inv (initApp now)"
  by (simp add: code_inv_def timer_inv_def playback_inv_def initApp_def)

lemma code_inv_onopen:
  assumes "code_inv s"
  shows "code_inv (onopen now s)"
proof -
  have ti: "timer_inv s"
    using assms by (simp add: code_inv_def)
  show ?thesis
    unfolding onopen_eq [OF ti]
    using assms by (auto simp: code_inv_def timer_inv_def)
qed

lemma code_inv_handleSpeechDetected:
  assumes "code_inv s"
  shows "code_inv (handleSpeechDetected now s)"
proof (cases "isPausedRef s")
  case True
  then show ?thesis
    using assms by (simp add: handleSpeechDetected_def)
next
  case False
  have ti: "timer_inv s"
    using assms by (simp add: code_inv_def)
  show ?thesis
    unfolding handleSpeechDetected_eq [OF False ti]
    using assms False by (auto simp: code_inv_def timer_inv_def)
qed

lemma code_inv_volume:
  "code_inv (s\<lparr> outbound := ob, volume := v \<rparr>) = code_inv s"
  by (simp add: code_inv_def)

lemma code_inv_onaudioprocess:
  "code_inv s \<Longrightarrow> code_inv (onaudioprocess now f s)"
  by (simp add: onaudioprocess_def Let_def code_inv_handleSpeechDetected code_inv_volume)

lemma code_inv_onmessage_resume:
  "code_inv s \<Longrightarrow> code_inv (onmessage_resume dec t b s)"
  by (auto simp: onmessage_resume_def Let_def code_inv_def timer_inv_def playback_inv_def
           split: option.splits)

lemma code_inv_decoding: "code_inv (s\<lparr> decoding := ds \<rparr>) = code_inv s"
  by (simp add: code_inv_def)

lemma code_inv_onmessage_suspend:
  "code_inv s \<Longrightarrow> code_inv (onmessage_suspend m s)"
  by (simp add: onmessage_suspend_def code_inv_decoding split: option.splits)

lemma code_inv_onmessage_settle:
  "code_inv s \<Longrightarrow> code_inv (onmessage_settle dec t i s)"
  by (simp add: onmessage_settle_def code_inv_onmessage_resume code_inv_decoding)

lemma code_inv_onended:
  "code_inv s \<Longrightarrow> code_inv (onended i s)"
  by (auto simp: onended_def code_inv_def timer_inv_def playback_inv_def)

lemma code_inv_togglePause:
  assumes "code_inv s"
  shows "code_inv (togglePause now s)"
proof (cases "isPaused s")
  case True
  have ti: "timer_inv s"
    using assms by (simp add: code_inv_def)
  show ?thesis
    unfolding togglePause_resume_eq [OF True ti]
    using assms by (auto simp: code_inv_def timer_inv_def)
next
  case False
  have ti: "timer_inv s" and pi: "playback_inv s"
    using assms by (simp_all add: code_inv_def)
  show ?thesis
    unfolding togglePause_pause_eq [OF False ti pi]
    using assms by (auto simp: code_inv_def timer_inv_def playback_inv_def)
qed

lemma code_inv_fireTimer:
  assumes "code_inv s"
  shows "code_inv (fireTimer i s)"
proof -
  have "timer_inv s"
    using assms by (simp add: code_inv_def)
  then consider "timers s = []" | j d where "timers s = [(j, d)]"
    using timer_inv_cases by blast
  then show ?thesis
  proof cases
    case 1
    then show ?thesis using assms by (simp add: fireTimer_def)
  next
    case 2
    then show ?thesis
      using assms by (auto simp: fireTimer_def code_inv_def timer_inv_def)
  qed
qed

lemma code_inv_dispatch:
  "code_inv s \<Longrightarrow> code_inv (dispatch dec now e s)"
  by (cases e)
     (simp_all add: code_inv_onopen code_inv_onaudioprocess code_inv_onmessage_suspend
        code_inv_onmessage_settle code_inv_onended code_inv_togglePause,
      simp_all add: code_inv_def onclose_def onerror_def startSessionFailed_def)

text \<open>The timer and playback invariants and the agreement of the pause flag with its
  ref hold in every reachable state, whatever the order of the callbacks.\<close>

lemma reachable_code_inv: "reachable s \<Longrightarrow> code_inv s"
  by (induction rule: reachable.induct)
     (simp_all add: code_inv_init code_inv_dispatch code_inv_fireTimer)

lemma reachable_advance: "reachable s \<Longrightarrow> reachable (advance t s)"
proof -
  have "reachable s \<Longrightarrow> reachable (fold fireTimer js s)" for js
    by (induction js arbitrary: s) (simp_all add: reachable.timer)
  then show "reachable s \<Longrightarrow> reachable (advance t s)"
    by (simp add: advance_def)
qed

lemma reachable_run: "reachable s \<Longrightarrow> reachable (run dec evs s)"
proof (induction evs arbitrary: s)
  case Nil
  then show ?case by simp
next
  case (Cons a evs)
  obtain t e where a: "a = (t, e)" by (cases a)
  have "reachable (dispatch dec t e (advance t s))"
    using Cons.prems by (intro reachable.callback reachable_advance)
  then show ?case
    using Cons.IH by (simp add: a)
qed

text \<open>The handlers of the capture loop return at their first line while paused.\<close>

lemma paused_speech_ignored:
  "isPausedRef s \<Longrightarrow> handleSpeechDetected now s = s \<and> onaudioprocess now inputData s = s"
  by (simp add: handleSpeechDetected_def onaudioprocess_def)

text \<open>The pause override is kept by every callback except an open delivered to a
  paused session, and by the firing of any timer.\<close>

lemma session_inv_dispatch:
  assumes "session_inv s" and "e = Open \<longrightarrow> \<not> isPaused s"
  shows "session_inv (dispatch dec now e s)"
proof -
  have ci: "code_inv s" and ti: "timer_inv s" and pi: "playback_inv s"
    and r: "isPausedRef s = isPaused s"
    using assms(1) by (simp_all add: session_inv_def code_inv_def)
  have c: "code_inv (dispatch dec now e s)"
    using ci by (rule code_inv_dispatch)
  have "(babyState (dispatch dec now e s) = PAUSED) = isPaused (dispatch dec now e s)
        \<and> (isPaused (dispatch dec now e s) \<longrightarrow> timers (dispatch dec now e s) = [])"
  proof (cases e)
    case Open
    then show ?thesis
      using assms by (simp add: onopen_eq [OF ti] session_inv_def)
  next
    case (AudioProcess f)
    show ?thesis
    proof (cases "isPausedRef s")
      case True
      then show ?thesis
        using assms(1) by (simp add: AudioProcess onaudioprocess_def session_inv_def)
    next
      case False
      have ti': "timer_inv (s\<lparr> outbound := outbound s @ [f], volume := rms f \<rparr>)"
        using ti by simp
      have np: "\<not> isPausedRef (s\<lparr> outbound := outbound s @ [f], volume := rms f \<rparr>)"
        using False by simp
      show ?thesis
        using assms(1) False r
        by (simp add: AudioProcess onaudioprocess_def Let_def
              handleSpeechDetected_eq [OF np ti'] session_inv_def)
    qed
  next
    case TogglePause
    show ?thesis
    proof (cases "isPaused s")
      case True
      then show ?thesis
        by (simp add: TogglePause togglePause_resume_eq [OF True ti])
    next
      case False
      then show ?thesis
        by (simp add: TogglePause togglePause_pause_eq [OF False ti pi])
    qed
  qed (use assms(1) in \<open>simp_all add: session_inv_def onmessage_suspend_def onmessage_settle_def
         onmessage_resume_def onclose_def onerror_def onended_def startSessionFailed_def
         Let_def split: option.splits\<close>)
  then show ?thesis
    using c by (simp add: session_inv_def)
qed

lemma session_inv_fireTimer:
  assumes "session_inv s"
  shows "session_inv (fireTimer i s)"
proof -
  have c: "code_inv (fireTimer i s)"
    using assms by (simp add: session_inv_def code_inv_fireTimer)
  have "timer_inv s"
    using assms by (simp add: session_inv_def code_inv_def)
  then consider "timers s = []" | j d where "timers s = [(j, d)]"
    using timer_inv_cases by blast
  then show ?thesis
  proof cases
    case 1
    then show ?thesis using assms by (simp add: fireTimer_def)
  next
    case 2
    then show ?thesis
      using assms c by (auto simp: fireTimer_def session_inv_def)
  qed
qed

text \<open>
  C2. The pause override does not hold in every reachable state. The open callback
  has no pause guard, while the handlers beside it (\<open>handleSpeechDetected\<close>,
  \<open>onaudioprocess\<close>, \<open>onmessage\<close>) all return first thing when paused: delivered
  to a paused session, it sets LISTENING and arms a timer, and the timer callback,
  which has no guard either, then sets CRYING, all while the session is paused. One
  such run: the start fails after the connection was requested (the monitor and its
  pause button are shown), the user pauses, the connection opens. Another: the start
  button is clicked twice, the first session opens, the user pauses, the second
  session opens.
\<close>

theorem open_while_paused:
  "reachable (run (\<lambda>b. None) [(0, StartFailed), (100, TogglePause), (200, Open)] (initApp 0))
   \<and> isPaused (run (\<lambda>b. None) [(0, StartFailed), (100, TogglePause), (200, Open)] (initApp 0))
   \<and> babyState (run (\<lambda>b. None) [(0, StartFailed), (100, TogglePause), (200, Open)] (initApp 0))
        = LISTENING
   \<and> isPaused (advance 2200
        (run (\<lambda>b. None) [(0, StartFailed), (100, TogglePause), (200, Open)] (initApp 0)))
   \<and> babyState (advance 2200
        (run (\<lambda>b. None) [(0, StartFailed), (100, TogglePause), (200, Open)] (initApp 0)))
        = CRYING
   \<and> isPaused (advance 2200
        (run (\<lambda>b. None) [(0, Open), (100, TogglePause), (200, Open)] (initApp 0)))
   \<and> babyState (advance 2200
        (run (\<lambda>b. None) [(0, Open), (100, TogglePause), (200, Open)] (initApp 0)))
        = CRYING"
proof -
  have r: "reachable (run (\<lambda>b. None) [(0, StartFailed), (100, TogglePause), (200, Open)] (initApp 0))"
    by (intro reachable_run reachable.mount)
  have e: "isPaused (run (\<lambda>b. None) [(0, StartFailed), (100, TogglePause), (200, Open)] (initApp 0))"
    "babyState (run (\<lambda>b. None) [(0, StartFailed), (100, TogglePause), (200, Open)] (initApp 0))
        = LISTENING"
    "isPaused (advance 2200
        (run (\<lambda>b. None) [(0, StartFailed), (100, TogglePause), (200, Open)] (initApp 0)))"
    "babyState (advance 2200
        (run (\<lambda>b. None) [(0, StartFailed), (100, TogglePause), (200, Open)] (initApp 0)))
        = CRYING"
    "isPaused (advance 2200
        (run (\<lambda>b. None) [(0, Open), (100, TogglePause), (200, Open)] (initApp 0)))"
    "babyState (advance 2200
        (run (\<lambda>b. None) [(0, Open), (100, TogglePause), (200, Open)] (initApp 0)))
        = CRYING"
    by (simp_all add: handler_defs)
  show ?thesis
    using r e by simp
qed

text \<open>A chunk whose message arrived before the pause and whose decode settles during
  it is scheduled all the same: the resumed handler does not read the pause flag.\<close>

lemma decoded_while_paused:
  "isPaused (run (\<lambda>b. Some \<lparr>duration = 1 / 2\<rparr>)
       [(0, Open), (10, Message \<lparr>parts = Some [Some ''AA'']\<rparr>), (20, TogglePause), (30, Decoded 1 0)]
       (initApp 0))
   \<and> playing (run (\<lambda>b. Some \<lparr>duration = 1 / 2\<rparr>)
       [(0, Open), (10, Message \<lparr>parts = Some [Some ''AA'']\<rparr>), (20, TogglePause), (30, Decoded 1 0)]
       (initApp 0)) \<noteq> []"
  by (simp add: handler_defs)

section \<open>Silence tolerance\<close>

lemma quiet_dispatch:
  assumes "quiet e"
  shows "timers (dispatch dec t e s) = timers s \<and> babyState (dispatch dec t e s) = babyState s
       \<and> silenceTimerRef (dispatch dec t e s) = silenceTimerRef s
       \<and> isPausedRef (dispatch dec t e s) = isPausedRef s"
  using assms
  by (cases e)
     (simp_all add: onmessage_suspend_def onmessage_settle_def onmessage_resume_def
        onclose_def onerror_def onended_def startSessionFailed_def
        onaudioprocess_def Let_def split: option.splits)

lemma armed_or_fired_advance:
  assumes "armed_or_fired d s"
  shows "armed_or_fired d (advance t s)"
proof -
  consider i where "timers s = [(i, d)]" | "timers s = []" "babyState s = CRYING"
    using assms by (auto simp: armed_or_fired_def)
  then show ?thesis
  proof cases
    case 1
    then show ?thesis
      by (simp add: advance_single [OF 1] armed_or_fired_def)
  next
    case 2
    then show ?thesis
      by (simp add: advance_none armed_or_fired_def)
  qed
qed

lemma armed_or_fired_quiet:
  "armed_or_fired d s \<Longrightarrow> quiet e \<Longrightarrow> armed_or_fired d (dispatch dec t e s)"
  by (simp add: armed_or_fired_def quiet_dispatch)

lemma armed_or_fired_run:
  "armed_or_fired d s \<Longrightarrow> list_all (\<lambda>(t, e). quiet e) evs \<Longrightarrow> armed_or_fired d (run dec evs s)"
proof (induction evs arbitrary: s)
  case Nil
  then show ?case by simp
next
  case (Cons a evs)
  obtain t e where a: "a = (t, e)" by (cases a)
  have q: "quiet e" and qs: "list_all (\<lambda>(t, e). quiet e) evs"
    using Cons.prems(2) a by simp_all
  have "armed_or_fired d (dispatch dec t e (advance t s))"
    using Cons.prems(1) q by (simp add: armed_or_fired_advance armed_or_fired_quiet)
  then show ?case
    using Cons.IH qs by (simp add: a)
qed

lemma armed_or_fired_due:
  "armed_or_fired d s \<Longrightarrow> d \<le> t \<Longrightarrow> babyState (advance t s) = CRYING"
  by (auto simp: armed_or_fired_def advance_single advance_none)

lemma entering_listening_arms:
  assumes "timer_inv s" and "babyState s \<noteq> LISTENING"
    and "babyState (dispatch dec t0 e s) = LISTENING"
  shows "\<exists>i. timers (dispatch dec t0 e s) = [(i, t0 + SILENCE_TOLERANCE_MS)]"
proof (cases e)
  case Open
  then show ?thesis
    using assms(1) by (simp add: onopen_eq)
next
  case (AudioProcess f)
  show ?thesis
  proof (cases "isPausedRef s \<or> \<not> rms f > SPEECH_THRESHOLD")
    case True
    then have "babyState (dispatch dec t0 e s) = babyState s"
      unfolding AudioProcess by (auto simp: onaudioprocess_def Let_def)
    then show ?thesis
      using assms(2,3) by simp
  next
    case False
    have ti: "timer_inv (s\<lparr> outbound := outbound s @ [f], volume := rms f \<rparr>)"
      using assms(1) by simp
    have np: "\<not> isPausedRef (s\<lparr> outbound := outbound s @ [f], volume := rms f \<rparr>)"
      using False by simp
    show ?thesis
      unfolding AudioProcess using False
      by (simp add: onaudioprocess_def Let_def handleSpeechDetected_eq [OF np ti])
  qed
next
  case TogglePause
  show ?thesis
  proof (cases "isPaused s")
    case True
    then show ?thesis
      unfolding TogglePause using assms(1) by (simp add: togglePause_resume_eq)
  next
    case False
    then have "babyState (dispatch dec t0 e s) = PAUSED"
      unfolding TogglePause
      by (simp add: togglePause_def Let_def fold_stopSource clearSilenceTimer_def
            clearTimeout_def split: option.splits)
    then show ?thesis
      using assms(3) by simp
  qed
qed (use assms(2,3) quiet_dispatch [of e dec t0 s] in simp_all)

lemma listening_until_timer_inv: "listening_until d s \<Longrightarrow> timer_inv s"
  by (auto simp: listening_until_def timer_inv_def)

lemma listening_until_speech:
  assumes "timer_inv s" and "\<not> isPausedRef s" and "is_speech e"
  shows "listening_until (t + SILENCE_TOLERANCE_MS) (dispatch dec t e s)"
proof -
  obtain f where e: "e = AudioProcess f" and loud: "rms f > SPEECH_THRESHOLD"
    using assms(3) by (cases e) simp_all
  have ti: "timer_inv (s\<lparr> outbound := outbound s @ [f], volume := rms f \<rparr>)"
    using assms(1) by simp
  have np: "\<not> isPausedRef (s\<lparr> outbound := outbound s @ [f], volume := rms f \<rparr>)"
    using assms(2) by simp
  show ?thesis
    unfolding e using assms(2) loud
    by (simp add: onaudioprocess_def Let_def handleSpeechDetected_eq [OF np ti]
          listening_until_def)
qed

lemma listening_until_early:
  "listening_until d s \<Longrightarrow> t < d \<Longrightarrow> advance t s = s"
  by (auto simp: listening_until_def advance_single)

lemma listening_until_quiet:
  "listening_until d s \<Longrightarrow> quiet e \<Longrightarrow> listening_until d (dispatch dec t e s)"
  by (simp add: listening_until_def quiet_dispatch)

lemma listening_until_run:
  "listening_until d s \<Longrightarrow> spaced d evs \<Longrightarrow> listening_until (deadline_after d evs) (run dec evs s)"
proof (induction evs arbitrary: d s)
  case Nil
  then show ?case by simp
next
  case (Cons a evs)
  obtain t e where a: "a = (t, e)" by (cases a)
  have early: "t < d"
    using Cons.prems(2) a by simp
  have adv: "advance t s = s"
    using Cons.prems(1) early by (rule listening_until_early)
  show ?case
  proof (cases "is_speech e")
    case True
    have sp: "spaced (t + SILENCE_TOLERANCE_MS) evs"
      using Cons.prems(2) a True by simp
    have "listening_until (t + SILENCE_TOLERANCE_MS) (dispatch dec t e s)"
      using Cons.prems(1) True
      by (intro listening_until_speech) (auto simp: listening_until_def timer_inv_def)
    then have "listening_until (deadline_after (t + SILENCE_TOLERANCE_MS) evs)
                 (run dec evs (dispatch dec t e s))"
      using sp by (rule Cons.IH)
    then show ?thesis
      using True by (simp add: a adv)
  next
    case False
    have q: "quiet e" and sp: "spaced d evs"
      using Cons.prems(2) a False by simp_all
    have "listening_until d (dispatch dec t e s)"
      using Cons.prems(1) q by (rule listening_until_quiet)
    then have "listening_until (deadline_after d evs) (run dec evs (dispatch dec t e s))"
      using sp by (rule Cons.IH)
    then show ?thesis
      using False by (simp add: a adv)
  qed
qed

lemma spaced_take: "spaced d evs \<Longrightarrow> spaced d (take n evs)"
proof (induction evs arbitrary: d n)
  case Nil
  then show ?case by simp
next
  case (Cons a evs)
  obtain t e where a: "a = (t, e)" by (cases a)
  show ?case
    using Cons.prems Cons.IH by (cases n; cases "is_speech e") (simp_all add: a)
qed

lemma isPausedRef_advance: "isPausedRef (advance t s) = isPausedRef s"
proof -
  have "isPausedRef (fold fireTimer js s) = isPausedRef s" for js
    by (induction js arbitrary: s) (simp_all add: fireTimer_def)
  then show ?thesis
    by (simp add: advance_def)
qed

lemma timer_inv_advance:
  assumes "timer_inv s"
  shows "timer_inv (advance t s)"
proof -
  consider "timers s = []" | i d where "timers s = [(i, d)]"
    using timer_inv_cases [OF assms] by blast
  then show ?thesis
  proof cases
    case 1
    then show ?thesis
      using assms by (simp add: advance_none)
  next
    case 2
    show ?thesis
      using assms by (simp add: advance_single [OF 2]) (simp add: timer_inv_def)
  qed
qed

text \<open>
  C1. Timers are taken to fire as soon as their deadline is reached. From a state
  whose only pending timer is the tracked one: (1) when a callback at \<open>t0\<close> makes
  the mood enter LISTENING, or is a speech frame of a session that is not paused, and
  only quiet events follow (no frame above the threshold, no pause or resume, no new
  open), the mood is CRYING at every time later than \<open>t0 + SILENCE_TOLERANCE_MS\<close>;
  (2) when the session is not paused and speech frames arrive, each less than
  \<open>SILENCE_TOLERANCE_MS\<close> after the one before, with any quiet frames, messages,
  decodes and other quiet events between them, the mood is not CRYING after any of
  these events, at any time before the deadline of the last speech frame.
\<close>

theorem silence_tolerance:
  assumes "timer_inv s"
  shows "((babyState s \<noteq> LISTENING \<and> babyState (dispatch dec t0 e s) = LISTENING
             \<or> is_speech e \<and> \<not> isPausedRef s)
          \<and> list_all (\<lambda>(t, e). quiet e) evs \<and> t0 + SILENCE_TOLERANCE_MS < t
            \<longrightarrow> babyState (advance t (run dec evs (dispatch dec t0 e s))) = CRYING)
       \<and> (\<not> isPausedRef s \<and> is_speech e1 \<and> spaced (t1 + SILENCE_TOLERANCE_MS) evs'
          \<and> t' < deadline_after (t1 + SILENCE_TOLERANCE_MS) (take n evs')
            \<longrightarrow> babyState (advance t' (run dec ((t1, e1) # take n evs') s)) \<noteq> CRYING)"
proof (intro conjI impI)
  assume a: "(babyState s \<noteq> LISTENING \<and> babyState (dispatch dec t0 e s) = LISTENING
             \<or> is_speech e \<and> \<not> isPausedRef s)
          \<and> list_all (\<lambda>(t, e). quiet e) evs \<and> t0 + SILENCE_TOLERANCE_MS < t"
  then consider (enter) "babyState s \<noteq> LISTENING" "babyState (dispatch dec t0 e s) = LISTENING"
    | (speech) "is_speech e" "\<not> isPausedRef s"
    by blast
  then have "\<exists>i. timers (dispatch dec t0 e s) = [(i, t0 + SILENCE_TOLERANCE_MS)]"
  proof cases
    case enter
    then show ?thesis
      using entering_listening_arms [OF assms, of dec t0 e] by blast
  next
    case speech
    then have "listening_until (t0 + SILENCE_TOLERANCE_MS) (dispatch dec t0 e s)"
      using assms by (intro listening_until_speech)
    then show ?thesis
      by (auto simp: listening_until_def)
  qed
  then have "armed_or_fired (t0 + SILENCE_TOLERANCE_MS) (dispatch dec t0 e s)"
    by (simp add: armed_or_fired_def)
  then have "armed_or_fired (t0 + SILENCE_TOLERANCE_MS) (run dec evs (dispatch dec t0 e s))"
    using a by (intro armed_or_fired_run) simp_all
  then show "babyState (advance t (run dec evs (dispatch dec t0 e s))) = CRYING"
    using a by (intro armed_or_fired_due [where d = "t0 + SILENCE_TOLERANCE_MS"]) simp_all
next
  assume b: "\<not> isPausedRef s \<and> is_speech e1 \<and> spaced (t1 + SILENCE_TOLERANCE_MS) evs'
          \<and> t' < deadline_after (t1 + SILENCE_TOLERANCE_MS) (take n evs')"
  let ?s1 = "dispatch dec t1 e1 (advance t1 s)"
  have "listening_until (t1 + SILENCE_TOLERANCE_MS) ?s1"
    using assms b by (intro listening_until_speech) (simp_all add: isPausedRef_advance timer_inv_advance)
  moreover have "spaced (t1 + SILENCE_TOLERANCE_MS) (take n evs')"
    using b by (simp add: spaced_take)
  ultimately have l: "listening_until (deadline_after (t1 + SILENCE_TOLERANCE_MS) (take n evs'))
                     (run dec (take n evs') ?s1)"
    by (rule listening_until_run)
  have "advance t' (run dec (take n evs') ?s1) = run dec (take n evs') ?s1"
    using b by (intro listening_until_early [OF l]) simp
  then show "babyState (advance t' (run dec ((t1, e1) # take n evs') s)) \<noteq> CRYING"
    using l by (simp add: listening_until_def)
qed

theorem silence_tolerance_witness:
  "babyState (initApp 0) = SLEEPING
   \<and> babyState (dispatch (\<lambda>b. None) 0 Open (initApp 0)) = LISTENING
   \<and> babyState (advance 2001
         (run (\<lambda>b. None) [(500, AudioProcess [0]), (1500, Message \<lparr>parts = None\<rparr>)]
            (dispatch (\<lambda>b. None) 0 Open (initApp 0)))) = CRYING
   \<and> babyState (advance 3001
         (run (\<lambda>b. None) [(1500, AudioProcess [0])]
            (dispatch (\<lambda>b. None) 1000 (AudioProcess [1]) (onopen 0 (initApp 0))))) = CRYING
   \<and> babyState (advance 5999
         (run (\<lambda>b. None)
            ((1000, AudioProcess [1]) #
             take 5 [(1250, AudioProcess [0]), (2500, AudioProcess [1]),
                     (2600, Message \<lparr>parts = Some [Some ''AA'']\<rparr>), (2700, Decoded 1 0),
                     (4000, AudioProcess [1])])
            (onopen 0 (initApp 0)))) \<noteq> CRYING"
proof -
  let ?evs = "[(1250, AudioProcess [0]), (2500, AudioProcess [1]),
               (2600, Message \<lparr>parts = Some [Some ''AA'']\<rparr>), (2700, Decoded 1 0),
               (4000, AudioProcess [1])]"
  have ta: "timer_inv (initApp 0)"
    by (simp add: handler_defs)
  have a: "babyState (initApp 0) \<noteq> LISTENING \<and> babyState (dispatch (\<lambda>b. None) 0 Open (initApp 0)) = LISTENING
             \<or> is_speech Open \<and> \<not> isPausedRef (initApp 0)"
          "list_all (\<lambda>(t, e). quiet e) [(500, AudioProcess [0]), (1500, Message \<lparr>parts = None\<rparr>)]"
          "0 + SILENCE_TOLERANCE_MS < 2001"
          "babyState (initApp 0) = SLEEPING"
          "babyState (dispatch (\<lambda>b. None) 0 Open (initApp 0)) = LISTENING"
    by (simp_all add: handler_defs)
  have tb: "timer_inv (onopen 0 (initApp 0))"
    by (simp add: handler_defs)
  have c: "babyState (onopen 0 (initApp 0)) \<noteq> LISTENING
             \<and> babyState (dispatch (\<lambda>b. None) 1000 (AudioProcess [1]) (onopen 0 (initApp 0))) = LISTENING
             \<or> is_speech (AudioProcess [1]) \<and> \<not> isPausedRef (onopen 0 (initApp 0))"
          "list_all (\<lambda>(t, e). quiet e) [(1500, AudioProcess [0])]"
          "1000 + SILENCE_TOLERANCE_MS < 3001"
    by (simp_all add: handler_defs)
  have b: "\<not> isPausedRef (onopen 0 (initApp 0))"
          "is_speech (AudioProcess [1])"
          "spaced (1000 + SILENCE_TOLERANCE_MS) ?evs"
          "5999 < deadline_after (1000 + SILENCE_TOLERANCE_MS) (take 5 ?evs)"
    by (simp_all add: handler_defs)
  have 1: "babyState (advance 2001
         (run (\<lambda>b. None) [(500, AudioProcess [0]), (1500, Message \<lparr>parts = None\<rparr>)]
            (dispatch (\<lambda>b. None) 0 Open (initApp 0)))) = CRYING"
    using silence_tolerance [OF ta, THEN conjunct1, rule_format, OF conjI [OF a(1) conjI [OF a(2) a(3)]]]
    by simp
  have 2: "babyState (advance 3001
         (run (\<lambda>b. None) [(1500, AudioProcess [0])]
            (dispatch (\<lambda>b. None) 1000 (AudioProcess [1]) (onopen 0 (initApp 0))))) = CRYING"
    using silence_tolerance [OF tb, THEN conjunct1, rule_format, OF conjI [OF c(1) conjI [OF c(2) c(3)]]]
    by simp
  have 3: "babyState (advance 5999
         (run (\<lambda>b. None) ((1000, AudioProcess [1]) # take 5 ?evs) (onopen 0 (initApp 0)))) \<noteq> CRYING"
    using silence_tolerance [OF tb, THEN conjunct2, rule_format, OF conjI [OF b(1) conjI [OF b(2) conjI [OF b(3) b(4)]]]]
    by simp
  show ?thesis
    using a(4) a(5) 1 2 3 by blast
qed

section \<open>Round trip of the PCM framer\<close>

lemma length_int_to_bytes: "length (int_to_bytes k n) = k"
  by (induction k arbitrary: n) simp_all

lemma bytes_to_int_int_to_bytes: "bytes_to_int (int_to_bytes k n) = n mod 256 ^ k"
proof (induction k arbitrary: n)
  case 0
  then show ?case by simp
next
  case (Suc k)
  have "bytes_to_int (int_to_bytes (Suc k) n) = n mod 256 + 256 * (n div 256 mod 256 ^ k)"
    by (simp add: Suc.IH)
  also have "\<dots> = n mod (256 * 256 ^ k)"
    using zmod_zmult2_eq [of "256 ^ k" n 256] by simp
  finally show ?case by simp
qed

lemma two_full_scale: "0 < width \<Longrightarrow> 2 * full_scale width = 256 ^ width"
proof -
  assume "0 < width"
  then obtain j where j: "8 * width = Suc j"
    by (cases "8 * width") simp_all
  have "(256 :: int) ^ width = (2 ^ 8) ^ width" by simp
  also have "\<dots> = 2 ^ (8 * width)" by (simp only: power_mult)
  finally have "(256 :: int) ^ width = 2 ^ (8 * width)" .
  then show ?thesis
    by (simp add: full_scale_def j)
qed

lemma full_scale_pos: "0 < full_scale width"
  by (simp add: full_scale_def)

lemma sample_roundtrip:
  assumes "0 < width" and "- full_scale width \<le> n" and "n < full_scale width"
  shows "sample_of_bytes be width (sample_to_bytes be width n) = n"
proof -
  let ?S = "full_scale width"
  have u: "bytes_to_int (if be then rev (sample_to_bytes be width n) else sample_to_bytes be width n)
             = n mod (2 * ?S)"
    by (simp add: sample_to_bytes_def bytes_to_int_int_to_bytes two_full_scale [OF assms(1)])
  show ?thesis
  proof (cases "0 \<le> n")
    case True
    then have "n mod (2 * ?S) = n"
      using assms(3) by simp
    then show ?thesis
      using assms(3) by (simp add: sample_of_bytes_def u Let_def)
  next
    case False
    have "0 \<le> n + 2 * ?S" and "n + 2 * ?S < 2 * ?S"
      using False assms(2) full_scale_pos [of width] by simp_all
    then have "(n + 2 * ?S) mod (2 * ?S) = n + 2 * ?S"
      by (rule mod_pos_pos_trivial)
    then have "n mod (2 * ?S) = n + 2 * ?S"
      by simp
    then show ?thesis
      using False assms(2) by (simp add: sample_of_bytes_def u Let_def)
  qed
qed

lemma quantize_range:
  "0 < full_scale width \<Longrightarrow>
     - full_scale width \<le> quantize rnd width x \<and> quantize rnd width x < full_scale width"
  by (auto simp: quantize_def)

lemma clamp_error:
  fixes r S :: int and y :: real
  assumes "\<bar>real_of_int r - y\<bar> < 1" and "- real_of_int S \<le> y" and "y \<le> real_of_int S"
    and "0 < S"
  shows "\<bar>real_of_int (max (- S) (min (S - 1) r)) - y\<bar> \<le> 1"
proof -
  consider (lo) "r \<le> - S - 1" | (mid) "- S \<le> r" "r \<le> S - 1" | (hi) "S \<le> r"
    by linarith
  then show ?thesis
  proof cases
    case lo
    then have "real_of_int r \<le> real_of_int (- S - 1)"
      by (simp only: of_int_le_iff)
    then have "real_of_int r \<le> - real_of_int S - 1"
      by simp
    then show ?thesis
      using assms by linarith
  next
    case mid
    then have "max (- S) (min (S - 1) r) = r"
      by simp
    then show ?thesis
      using assms(1) by simp
  next
    case hi
    then have m: "max (- S) (min (S - 1) r) = S - 1"
      using assms(4) by simp
    have "real_of_int S \<le> real_of_int r"
      using hi by (simp only: of_int_le_iff)
    then show ?thesis
      unfolding m using assms(1-3) by (simp add: abs_le_iff)
  qed
qed

lemma quantize_error:
  assumes rnd: "\<And>y. \<bar>real_of_int (rnd y) - y\<bar> < 1"
    and x: "- 1 \<le> x" "x \<le> 1"
  shows "\<bar>real_of_int (quantize rnd width x) / real_of_int (full_scale width) - x\<bar>
           \<le> 1 / real_of_int (full_scale width)"
proof -
  let ?S = "real_of_int (full_scale width)"
  let ?y = "x * ?S"
  have S: "0 < ?S"
    using full_scale_pos [of width] by simp
  have ylo: "- ?S \<le> ?y"
    using mult_right_mono [of "- 1" x ?S] x S by simp
  have yhi: "?y \<le> ?S"
    using mult_right_mono [of x 1 ?S] x S by simp
  have r: "\<bar>real_of_int (rnd ?y) - ?y\<bar> < 1"
    by (rule rnd)
  have q: "\<bar>real_of_int (quantize rnd width x) - ?y\<bar> \<le> 1"
    unfolding quantize_def using r ylo yhi full_scale_pos by (rule clamp_error)
  have "real_of_int (quantize rnd width x) / ?S - x
          = (real_of_int (quantize rnd width x) - ?y) / ?S"
    using S by (simp add: diff_divide_distrib)
  then have "\<bar>real_of_int (quantize rnd width x) / ?S - x\<bar>
          = \<bar>real_of_int (quantize rnd width x) - ?y\<bar> / ?S"
    using S by simp
  also have "\<dots> \<le> 1 / ?S"
    using q S by (simp add: divide_right_mono)
  finally show ?thesis .
qed

lemma take_drop_concat:
  assumes "\<And>x. length (f x) = k" and "i < length xs"
  shows "take k (drop (i * k) (concat (map f xs))) = f (xs ! i)"
  using assms(2)
proof (induction xs arbitrary: i)
  case Nil
  then show ?case by simp
next
  case (Cons a xs)
  show ?case
  proof (cases i)
    case 0
    then show ?thesis by (simp add: assms(1))
  next
    case (Suc j)
    then have "j < length xs" using Cons.prems by simp
    then have "take k (drop (j * k) (concat (map f xs))) = f (xs ! j)"
      by (rule Cons.IH)
    then show ?thesis
      by (simp add: Suc assms(1))
  qed
qed

lemma length_concat_fixed:
  assumes "\<And>x. length (f x) = k"
  shows "length (concat (map f xs)) = length xs * k"
  by (induction xs) (simp_all add: assms)

lemma length_sample_to_bytes: "length (sample_to_bytes be width n) = width"
  by (simp add: sample_to_bytes_def length_int_to_bytes)

text \<open>
  C9. For every sample width of at least one byte, either byte order and every
  rounding that moves a value by less than one unit, decoding the encoding of a frame
  whose samples lie in [-1, 1] succeeds and gives a frame of the same length and rate
  in which every sample differs from the original by at most one quantization step.
\<close>

theorem pcm_roundtrip:
  assumes "0 < width"
    and "\<forall>y. \<bar>real_of_int (rnd y) - y\<bar> < 1"
    and "\<forall>x \<in> set (samples f). - 1 \<le> x \<and> x \<le> 1"
  shows "\<exists>g. decode be width (encode rnd be width f) (sampleRate f) = Inr g
           \<and> sampleRate g = sampleRate f
           \<and> length (samples g) = length (samples f)
           \<and> (\<forall>i < length (samples f).
                 \<bar>samples g ! i - samples f ! i\<bar> \<le> 1 / real_of_int (full_scale width))"
proof -
  let ?enc = "\<lambda>x. sample_to_bytes be width (quantize rnd width x)"
  let ?bs = "encode rnd be width f"
  let ?n = "length (samples f)"
  let ?g = "\<lparr> samples =
                map (\<lambda>i. real_of_int (sample_of_bytes be width (take width (drop (i * width) ?bs)))
                          / real_of_int (full_scale width))
                    [0 ..< ?n],
              sampleRate = sampleRate f \<rparr>"
  have len: "length ?bs = ?n * width"
    unfolding encode_def by (rule length_concat_fixed) (rule length_sample_to_bytes)
  have dec: "decode be width ?bs (sampleRate f) = Inr ?g"
    using assms(1) by (simp add: decode_def len)
  have err: "\<bar>samples ?g ! i - samples f ! i\<bar> \<le> 1 / real_of_int (full_scale width)"
    if i: "i < ?n" for i
  proof -
    let ?x = "samples f ! i"
    have x: "- 1 \<le> ?x" "?x \<le> 1"
      using assms(3) i by simp_all
    have "take width (drop (i * width) ?bs) = ?enc ?x"
      unfolding encode_def using i by (intro take_drop_concat) (simp_all add: length_sample_to_bytes)
    then have "sample_of_bytes be width (take width (drop (i * width) ?bs)) = quantize rnd width ?x"
      using assms(1) quantize_range [OF full_scale_pos, of width rnd ?x]
      by (simp add: sample_roundtrip)
    then have "samples ?g ! i = real_of_int (quantize rnd width ?x) / real_of_int (full_scale width)"
      using i by simp
    then show ?thesis
      using quantize_error [of rnd ?x width] assms(2) x by simp
  qed
  show ?thesis
    using dec err by (intro exI [of _ ?g]) simp
qed

theorem pcm_roundtrip_witness:
  "encode floor False 2 \<lparr>samples = [1, - 1 / 4], sampleRate = 16000\<rparr> = [255, 127, 0, 224]
   \<and> full_scale 2 = 32768
   \<and> (\<exists>g. decode False 2 (encode floor False 2 \<lparr>samples = [1, - 1 / 4], sampleRate = 16000\<rparr>)
                (sampleRate \<lparr>samples = [1, - 1 / 4], sampleRate = 16000\<rparr>) = Inr g
            \<and> sampleRate g = sampleRate \<lparr>samples = [1, - 1 / 4], sampleRate = 16000\<rparr>
            \<and> length (samples g) = length (samples \<lparr>samples = [1, - 1 / 4], sampleRate = 16000\<rparr>)
            \<and> (\<forall>i < length (samples \<lparr>samples = [1, - 1 / 4], sampleRate = 16000\<rparr>).
                  \<bar>samples g ! i - samples \<lparr>samples = [1, - 1 / 4], sampleRate = 16000\<rparr> ! i\<bar>
                    \<le> 1 / real_of_int (full_scale 2)))"
proof -
  let ?f = "\<lparr>samples = [1, - 1 / 4], sampleRate = 16000\<rparr>"
  have w: "0 < (2 :: nat)"
    by simp
  have r: "\<forall>y. \<bar>real_of_int (floor y) - y\<bar> < 1"
    by (intro allI) linarith
  have x: "\<forall>x \<in> set (samples ?f). - 1 \<le> x \<and> x \<le> 1"
    by simp
  have e: "encode floor False 2 ?f = [255, 127, 0, 224]"
    by (simp add: encode_def sample_to_bytes_def quantize_def full_scale_def numeral_2_eq_2)
  have s: "full_scale 2 = 32768"
    by (simp add: full_scale_def)
  show ?thesis
    by (intro conjI e s pcm_roundtrip [OF w r x])
qed

end
